theory Spec2Isabelle
  imports Main "HOL-Library.Word"
begin

unbundle bit_operations_syntax

section \<open>The bitmap codec of BitmapController\<close>

text \<open>
  A bitmap is the \<^verbatim>\<open>uint8_t[BITMAP_SIZE]\<close> buffer of the source, a list of bytes; a
  payload is the \<^verbatim>\<open>uint16_t\<close> array behind \<^verbatim>\<open>compressed_bitmap\<close>. Buffers of
  bitmaps hold \<^verbatim>\<open>BITMAP_SIZE\<close> bytes; the loops of the source run over exactly
  the first \<^verbatim>\<open>BITMAP_SIZE\<close> of them. A read through a null pointer or past the
  end of a payload array is undefined behaviour in the source; the model makes it a
  value of type \<open>fault\<close>; \<open>InvalidPointer\<close> stands for a pointer argument that
  points at no node or group of the controller.
\<close>

type_synonym uint8_t = "8 word"
type_synonym uint16_t = "16 word"
type_synonym addr = nat

definition BITMAP_SIZE :: nat where
  "BITMAP_SIZE = 7500"

definition MAX_COMPRESS_NUM :: int where
  "MAX_COMPRESS_NUM = 9"

datatype fault = NullPointer | OutOfBounds | InvalidPointer

text \<open>\<^verbatim>\<open>xor_function\<close>: \<^verbatim>\<open>result[i] = a[i] ^ b[i]\<close> for \<^verbatim>\<open>i < BITMAP_SIZE\<close>.\<close>

definition xor_function :: "uint8_t list \<Rightarrow> uint8_t list \<Rightarrow> uint8_t list" where
  "xor_function a b = map2 (XOR) (take BITMAP_SIZE a) (take BITMAP_SIZE b)"

text \<open>
  The inner loop of \<^verbatim>\<open>compress_bitmap\<close>: the \<^verbatim>\<open>j\<close> in \<^verbatim>\<open>0..7\<close>, ascending, with
  \<^verbatim>\<open>temp[i] & (1 << (7 - j))\<close> non-zero.
\<close>

definition byte_bits :: "uint8_t \<Rightarrow> nat list" where
  "byte_bits t = filter (\<lambda>j. t AND push_bit (7 - j) 1 \<noteq> 0) [0..<8]"

text \<open>The first pass of \<^verbatim>\<open>compress_bitmap\<close>, which counts the set bits into \<^verbatim>\<open>total_cnt\<close>.\<close>

fun count_bits :: "uint8_t list \<Rightarrow> int \<Rightarrow> int" where
  "count_bits [] total_cnt = total_cnt"
| "count_bits (t # ts) total_cnt =
     count_bits ts (if t \<noteq> 0 then total_cnt + int (length (byte_bits t)) else total_cnt)"

text \<open>
  The second pass, which stores \<^verbatim>\<open>i * 8 + j\<close> (narrowed to \<^verbatim>\<open>uint16_t\<close>) for every
  set bit, byte \<^verbatim>\<open>i\<close> after byte \<^verbatim>\<open>i - 1\<close>.
\<close>

fun fill_positions :: "nat \<Rightarrow> uint8_t list \<Rightarrow> uint16_t list" where
  "fill_positions i [] = []"
| "fill_positions i (t # ts) =
     (if t \<noteq> 0 then map (\<lambda>j. of_nat (i * 8 + j)) (byte_bits t) else [])
       @ fill_positions (i + 1) ts"

text \<open>
  The dense branch: word \<^verbatim>\<open>i\<close> is \<^verbatim>\<open>original_bitmap[2 * i] | original_bitmap[2 * i + 1] << 8\<close>.
\<close>

fun pack_pairs :: "uint8_t list \<Rightarrow> uint16_t list" where
  "pack_pairs (b0 # b1 # bs) = (ucast b0 OR push_bit 8 (ucast b1)) # pack_pairs bs"
| "pack_pairs _ = []"

text \<open>
  \<^verbatim>\<open>compress_bitmap\<close> returns the payload array and, through its reference
  parameter, the flag \<^verbatim>\<open>is_compressed\<close>. \<^verbatim>\<open>BITMAP_SIZE / 16\<close> is a division of
  \<^verbatim>\<open>int\<close>s in the source.
\<close>

definition compress_bitmap :: "uint8_t list \<Rightarrow> uint8_t list \<Rightarrow> uint16_t list \<times> bool" where
  "compress_bitmap original_bitmap complete_bitmap =
     (let temp = xor_function original_bitmap complete_bitmap;
          total_cnt = count_bits temp 0
      in if total_cnt \<ge> int (BITMAP_SIZE div 16)
         then (pack_pairs (take BITMAP_SIZE original_bitmap), False)
         else (of_int total_cnt # fill_positions 0 temp, True))"

text \<open>
  The dense loop of \<^verbatim>\<open>decompress_bitmap\<close>: \<^verbatim>\<open>bitmap_result[2 * i] ^= w & 0xFF\<close> and
  \<^verbatim>\<open>bitmap_result[2 * i + 1] ^= (w >> 8) & 0xFF\<close> for word \<^verbatim>\<open>w\<close> number \<^verbatim>\<open>i\<close>.
\<close>

fun xor_dense :: "uint8_t list \<Rightarrow> uint16_t list \<Rightarrow> uint8_t list" where
  "xor_dense (r0 # r1 # rs) (w # ws) =
     (r0 XOR ucast (w AND 0xFF)) # (r1 XOR ucast (drop_bit 8 w AND 0xFF)) # xor_dense rs ws"
| "xor_dense rs _ = rs"

text \<open>
  The sparse loop: position \<^verbatim>\<open>pos\<close> flips bit \<^verbatim>\<open>7 - pos % 8\<close> of byte \<^verbatim>\<open>pos / 8\<close>. A byte
  index outside the result buffer is a write out of bounds.
\<close>

fun toggle_positions :: "uint16_t list \<Rightarrow> uint8_t list \<Rightarrow> fault + uint8_t list" where
  "toggle_positions [] bitmap_result = Inr bitmap_result"
| "toggle_positions (p # ps) bitmap_result =
     (let pos = unat p; byte_index = pos div 8; bit_index = pos mod 8
      in if byte_index < length bitmap_result
         then toggle_positions ps
                (bitmap_result[byte_index := bitmap_result ! byte_index XOR push_bit (7 - bit_index) 1])
         else Inl OutOfBounds)"

text \<open>
  \<^verbatim>\<open>decompress_bitmap\<close>: the \<^verbatim>\<open>memcpy\<close> of the reference into the result buffer, then
  one of the two loops. The payload pointer may be null (a placeholder node): the first
  read through it is then a fault. The dense loop reads \<^verbatim>\<open>BITMAP_SIZE / 2\<close> words, the
  sparse loop the words \<^verbatim>\<open>1..compressed_bitmap[0]\<close>.
\<close>

definition decompress_bitmap ::
  "uint8_t list \<Rightarrow> uint8_t list \<Rightarrow> uint16_t list option \<Rightarrow> bool \<Rightarrow> fault + uint8_t list" where
  "decompress_bitmap bitmap_result complete_bitmap compressed_bitmap is_compressed =
     (let copied = take BITMAP_SIZE complete_bitmap @ drop BITMAP_SIZE bitmap_result
      in case compressed_bitmap of
           None \<Rightarrow> Inl NullPointer
         | Some cb \<Rightarrow>
             if \<not> is_compressed
             then (if length cb < BITMAP_SIZE div 2 then Inl OutOfBounds
                   else Inr (xor_dense copied (take (BITMAP_SIZE div 2) cb)))
             else (case cb of
                     [] \<Rightarrow> Inl OutOfBounds
                   | c # data \<Rightarrow>
                       if unat c \<le> length data then toggle_positions (take (unat c) data) copied
                       else Inl OutOfBounds))"

text \<open>
  The merge loops of \<^verbatim>\<open>union_sorted_array\<close> over \<^verbatim>\<open>a_data[0..a_size)\<close> and
  \<^verbatim>\<open>b_data[0..b_size)\<close>: the smaller head is copied, equal heads are copied once, and
  what is left of either side is appended.
\<close>

fun union_loop :: "uint16_t list \<Rightarrow> uint16_t list \<Rightarrow> uint16_t list" where
  "union_loop [] b_data = b_data"
| "union_loop a_data [] = a_data"
| "union_loop (x # xs) (y # ys) =
     (if x < y then x # union_loop xs (y # ys)
      else if x > y then y # union_loop (x # xs) ys
      else x # union_loop xs ys)"

text \<open>
  \<^verbatim>\<open>union_sorted_array(a, b)\<close>: the sizes are read from slot 0 of each array, the
  merged positions are written behind the new count \<^verbatim>\<open>k - 1\<close> (narrowed to
  \<^verbatim>\<open>uint16_t\<close>), and \<^verbatim>\<open>a\<close> is replaced by the new array. The array \<^verbatim>\<open>b\<close> is only
  read; the pair returned is the new \<^verbatim>\<open>a\<close> and \<^verbatim>\<open>b\<close> as it stands after the call.
\<close>

definition union_sorted_array :: "uint16_t list \<Rightarrow> uint16_t list \<Rightarrow> fault + (uint16_t list \<times> uint16_t list)" where
  "union_sorted_array a b =
     (case a of
        [] \<Rightarrow> Inl OutOfBounds
      | a0 # a_data \<Rightarrow>
          (case b of
             [] \<Rightarrow> Inl OutOfBounds
           | b0 # b_data \<Rightarrow>
               let a_size = unat a0; b_size = unat b0
               in if a_size \<le> length a_data \<and> b_size \<le> length b_data
                  then let temp = union_loop (take a_size a_data) (take b_size b_data)
                       in Inr (of_nat (length temp) # temp, b)
                  else Inl OutOfBounds))"

section \<open>The version chain\<close>

text \<open>
  A \<^verbatim>\<open>CompressedBitmap\<close> node and a \<^verbatim>\<open>BitmapRef\<close> group live on the heap and are
  known by their addresses. The links \<^verbatim>\<open>next_bitmap\<close> and \<^verbatim>\<open>next_ref\<close> are written
  once, when a node or group is pushed in front of the current head, and nothing is
  ever unlinked (the deletion helpers are never called): a chain is the list of its
  nodes, head first, and the link of a node is the rest of the list. A null
  \<^verbatim>\<open>compressed_bitmap\<close> pointer is \<open>None\<close>. Every \<^verbatim>\<open>new\<close> takes the next
  address of the counter \<open>next_addr\<close>, so two objects never share one.
\<close>

record CompressedBitmap =
  bitmap_addr :: addr
  bitmap_csn :: int
  compressed_bitmap :: "uint16_t list option"
  is_compressed :: bool

record BitmapRef =
  ref_addr :: addr
  bitmap_cnt :: int
  csn_range :: "int \<times> int"
  complete_bitmap :: "uint8_t list"
  first_compressed_bitmap :: "CompressedBitmap list"

record BitmapController =
  first_ref :: "BitmapRef list"
  head_bitmap_cnt :: int
  next_addr :: addr

text \<open>The constructor: no group yet, and \<^verbatim>\<open>head_bitmap_cnt = 9\<close>.\<close>

definition BitmapController_init :: BitmapController where
  "BitmapController_init = \<lparr>first_ref = [], head_bitmap_cnt = 9, next_addr = 0\<rparr>"

subsection \<open>get_bitmap\<close>

text \<open>
  The first loop of \<^verbatim>\<open>get_bitmap\<close>: the group the walk breaks at, or \<open>None\<close> when it
  returns false (the requested CSN is above the range of the group at hand) or runs
  off the end of the chain of groups.
\<close>

fun select_ref :: "BitmapRef list \<Rightarrow> int \<Rightarrow> BitmapRef option" where
  "select_ref [] require_csn = None"
| "select_ref (g # gs) require_csn =
     (if require_csn < fst (csn_range g) then select_ref gs require_csn
      else if require_csn > snd (csn_range g) then None
      else Some g)"

text \<open>
  The second loop: the first node of the chain with the requested CSN is decoded
  against the reference, whatever its payload pointer is.
\<close>

fun search_chain ::
  "uint8_t list \<Rightarrow> CompressedBitmap list \<Rightarrow> int \<Rightarrow> uint8_t list \<Rightarrow> fault + (bool \<times> uint8_t list)" where
  "search_chain reference [] require_csn bitmap_result = Inr (False, bitmap_result)"
| "search_chain reference (n # ns) require_csn bitmap_result =
     (if require_csn = bitmap_csn n
      then (case decompress_bitmap bitmap_result reference (compressed_bitmap n) (is_compressed n) of
              Inl f \<Rightarrow> Inl f
            | Inr decoded \<Rightarrow> Inr (True, decoded))
      else search_chain reference ns require_csn bitmap_result)"

text \<open>\<^verbatim>\<open>get_bitmap\<close> returns its boolean and the caller's buffer as the call leaves it.\<close>

definition get_bitmap :: "BitmapController \<Rightarrow> int \<Rightarrow> uint8_t list \<Rightarrow> fault + (bool \<times> uint8_t list)" where
  "get_bitmap st require_csn bitmap_result =
     (case select_ref (first_ref st) require_csn of
        None \<Rightarrow> Inr (False, bitmap_result)
      | Some temp_refp \<Rightarrow>
          search_chain (complete_bitmap temp_refp) (first_compressed_bitmap temp_refp)
            require_csn bitmap_result)"

subsection \<open>insert_null\<close>

text \<open>
  \<^verbatim>\<open>insert_null\<close> takes the caller's two pointer variables by reference and leaves
  them as they are when it opens a group. Run without interleaving, the group it
  loads as \<^verbatim>\<open>now_first_ref\<close> is the head group.
\<close>

definition insert_null ::
  "int \<Rightarrow> uint8_t list \<Rightarrow> addr option \<times> addr option \<Rightarrow> BitmapController
     \<Rightarrow> fault + (bool \<times> (addr option \<times> addr option) \<times> BitmapController)" where
  "insert_null new_csn original_bitmap handle st =
     (if head_bitmap_cnt st = MAX_COMPRESS_NUM
      then
        let new_compressed_bitmap =
              \<lparr>bitmap_addr = next_addr st + 1, bitmap_csn = new_csn,
               compressed_bitmap = Some [0], is_compressed = True\<rparr>;
            new_ref =
              \<lparr>ref_addr = next_addr st, bitmap_cnt = 1, csn_range = (new_csn, new_csn),
               complete_bitmap = take BITMAP_SIZE original_bitmap,
               first_compressed_bitmap = [new_compressed_bitmap]\<rparr>
        in Inr (True, handle,
                st\<lparr>first_ref := new_ref # first_ref st, head_bitmap_cnt := 1,
                   next_addr := next_addr st + 2\<rparr>)
      else
        (case first_ref st of
           [] \<Rightarrow> Inl NullPointer
         | now_first_ref # older \<Rightarrow>
             let new_compressed_bitmap =
                   \<lparr>bitmap_addr = next_addr st, bitmap_csn = new_csn,
                    compressed_bitmap = None, is_compressed = False\<rparr>
             in Inr (True, (Some (ref_addr now_first_ref), Some (next_addr st)),
                     st\<lparr>first_ref :=
                          now_first_ref\<lparr>first_compressed_bitmap :=
                            new_compressed_bitmap # first_compressed_bitmap now_first_ref\<rparr> # older,
                        head_bitmap_cnt := head_bitmap_cnt st + 1,
                        next_addr := next_addr st + 1\<rparr>)))"

subsection \<open>insert_bitmap_content\<close>

text \<open>
  The assignment \<^verbatim>\<open>bitmap->compressed_bitmap = compress_bitmap(..., bitmap->is_compressed)\<close>
  is a write through the pointer \<^verbatim>\<open>bitmap\<close>: it changes the node with that address,
  in whichever chain the node is. \<open>find_bitmap\<close> is the node the pointer points at.
\<close>

definition find_bitmap :: "addr \<Rightarrow> BitmapRef list \<Rightarrow> CompressedBitmap option" where
  "find_bitmap bitmap refs =
     find (\<lambda>n. bitmap_addr n = bitmap) (concat (map first_compressed_bitmap refs))"

definition store_payload ::
  "addr \<Rightarrow> uint16_t list \<times> bool \<Rightarrow> CompressedBitmap list \<Rightarrow> CompressedBitmap list" where
  "store_payload bitmap enc chain =
     map (\<lambda>n. if bitmap_addr n = bitmap
               then n\<lparr>compressed_bitmap := Some (fst enc), is_compressed := snd enc\<rparr>
               else n) chain"

definition store_payload_refs ::
  "addr \<Rightarrow> uint16_t list \<times> bool \<Rightarrow> BitmapRef list \<Rightarrow> BitmapRef list" where
  "store_payload_refs bitmap enc refs =
     map (\<lambda>g. g\<lparr>first_compressed_bitmap := store_payload bitmap enc (first_compressed_bitmap g)\<rparr>) refs"

text \<open>
  The first loop under the lock, from the head up to \<^verbatim>\<open>bitmap\<close> or to the end of the
  chain: every node passed overwrites \<^verbatim>\<open>temp_csn\<close> and \<^verbatim>\<open>start_compress_point\<close>, a
  placeholder with \<open>-1\<close> and null, any other node with its own CSN and address.
\<close>

fun scan_chain :: "CompressedBitmap list \<Rightarrow> addr \<Rightarrow> int \<times> addr option \<Rightarrow> int \<times> addr option" where
  "scan_chain [] bitmap acc = acc"
| "scan_chain (n # ns) bitmap acc =
     (if bitmap_addr n = bitmap then acc
      else if compressed_bitmap n = None then scan_chain ns bitmap (- 1, None)
      else scan_chain ns bitmap (bitmap_csn n, Some (bitmap_addr n)))"

text \<open>
  The second loop: from \<^verbatim>\<open>start_compress_point\<close> up to \<^verbatim>\<open>bitmap\<close> or to the end of
  the chain, the payload of \<^verbatim>\<open>bitmap\<close> is merged into the payload of every node, with
  no look at \<^verbatim>\<open>is_compressed\<close>. \<open>union_from\<close> is the loop once it stands at a node,
  \<open>propagate\<close> finds \<^verbatim>\<open>start_compress_point\<close> in the chain first.
\<close>

fun union_from :: "CompressedBitmap list \<Rightarrow> addr \<Rightarrow> uint16_t list \<Rightarrow> fault + CompressedBitmap list" where
  "union_from [] bitmap b = Inr []"
| "union_from (n # ns) bitmap b =
     (if bitmap_addr n = bitmap then Inr (n # ns)
      else (case compressed_bitmap n of
              None \<Rightarrow> Inl NullPointer
            | Some a \<Rightarrow>
                (case union_sorted_array a b of
                   Inl f \<Rightarrow> Inl f
                 | Inr (a', b') \<Rightarrow>
                     (case union_from ns bitmap b' of
                        Inl f \<Rightarrow> Inl f
                      | Inr ns' \<Rightarrow> Inr (n\<lparr>compressed_bitmap := Some a'\<rparr> # ns')))))"

fun propagate ::
  "CompressedBitmap list \<Rightarrow> addr \<Rightarrow> addr \<Rightarrow> uint16_t list \<Rightarrow> fault + CompressedBitmap list" where
  "propagate [] start_compress_point bitmap b = Inl InvalidPointer"
| "propagate (n # ns) start_compress_point bitmap b =
     (if bitmap_addr n = start_compress_point then union_from (n # ns) bitmap b
      else (case propagate ns start_compress_point bitmap b of
              Inl f \<Rightarrow> Inl f
            | Inr ns' \<Rightarrow> Inr (n # ns')))"

text \<open>
  The part of \<^verbatim>\<open>insert_bitmap_content\<close> between \<^verbatim>\<open>ref_lock.lock()\<close> and
  \<^verbatim>\<open>ref_lock.unlock()\<close>, on the group \<^verbatim>\<open>ref\<close> points at; \<open>csn_of_bitmap\<close> and
  \<open>payload\<close> are what it reads as \<^verbatim>\<open>bitmap->bitmap_csn\<close> and
  \<^verbatim>\<open>bitmap->compressed_bitmap\<close>.
\<close>

definition locked_update :: "addr \<Rightarrow> int \<Rightarrow> uint16_t list \<Rightarrow> BitmapRef \<Rightarrow> fault + BitmapRef" where
  "locked_update bitmap csn_of_bitmap payload g =
     (let chain = first_compressed_bitmap g;
          (temp_csn, start_compress_point) = scan_chain chain bitmap (- 1, None)
      in (case (case start_compress_point of
                  None \<Rightarrow> Inr chain
                | Some start \<Rightarrow> propagate chain start bitmap payload) of
            Inl f \<Rightarrow> Inl f
          | Inr chain' \<Rightarrow>
              let temp_csn' = (if temp_csn = - 1 then csn_of_bitmap else temp_csn)
              in Inr (g\<lparr>bitmap_cnt := bitmap_cnt g + 1,
                        csn_range := (fst (csn_range g), max (snd (csn_range g)) temp_csn'),
                        first_compressed_bitmap := chain'\<rparr>)))"

text \<open>The group with the address \<^verbatim>\<open>ref\<close> among the groups of the controller.\<close>

fun update_ref ::
  "addr \<Rightarrow> (BitmapRef \<Rightarrow> fault + BitmapRef) \<Rightarrow> BitmapRef list \<Rightarrow> fault + BitmapRef list" where
  "update_ref r f [] = Inl InvalidPointer"
| "update_ref r f (g # gs) =
     (if ref_addr g = r
      then (case f g of Inl e \<Rightarrow> Inl e | Inr g' \<Rightarrow> Inr (g' # gs))
      else (case update_ref r f gs of Inl e \<Rightarrow> Inl e | Inr gs' \<Rightarrow> Inr (g # gs')))"

text \<open>
  \<^verbatim>\<open>insert_bitmap_content\<close>: the image is encoded against the reference of the group
  \<^verbatim>\<open>ref\<close>, the encoding is stored in the node \<^verbatim>\<open>bitmap\<close>, and the group is updated
  under its lock. A pointer that is null, or that points at no group or node of the
  controller, is a fault.
\<close>

definition insert_bitmap_content ::
  "addr option \<Rightarrow> addr option \<Rightarrow> uint8_t list \<Rightarrow> BitmapController \<Rightarrow> fault + (bool \<times> BitmapController)" where
  "insert_bitmap_content ref bitmap original_bitmap st =
     (case ref of
        None \<Rightarrow> Inl NullPointer
      | Some r \<Rightarrow>
          (case bitmap of
             None \<Rightarrow> Inl NullPointer
           | Some b \<Rightarrow>
               (case find (\<lambda>g. ref_addr g = r) (first_ref st) of
                  None \<Rightarrow> Inl InvalidPointer
                | Some g \<Rightarrow>
                    (case find_bitmap b (first_ref st) of
                       None \<Rightarrow> Inl InvalidPointer
                     | Some node \<Rightarrow>
                         let enc = compress_bitmap original_bitmap (complete_bitmap g);
                             refs1 = store_payload_refs b enc (first_ref st)
                         in (case update_ref r (locked_update b (bitmap_csn node) (fst enc)) refs1 of
                               Inl f \<Rightarrow> Inl f
                             | Inr refs' \<Rightarrow> Inr (True, st\<lparr>first_ref := refs'\<rparr>))))))"

subsection \<open>Runs of the controller\<close>

text \<open>
  One call of \<^verbatim>\<open>insert_null\<close> or \<^verbatim>\<open>insert_bitmap_content\<close> that returns, with any
  arguments, and the states a sequence of such calls reaches from the constructor.
\<close>

inductive step :: "BitmapController \<Rightarrow> BitmapController \<Rightarrow> bool" where
  step_insert_null:
    "insert_null new_csn original_bitmap handle st = Inr (ok, handle', st') \<Longrightarrow> step st st'"
| step_insert_bitmap_content:
    "insert_bitmap_content ref bitmap original_bitmap st = Inr (ok, st') \<Longrightarrow> step st st'"

inductive reachable :: "BitmapController \<Rightarrow> bool" where
  reachable_init: "reachable BitmapController_init"
| reachable_step: "reachable st \<Longrightarrow> step st st' \<Longrightarrow> reachable st'"

subsection \<open>A client of the controller\<close>

text \<open>
  A client in the manner of the benchmark driver: it calls \<^verbatim>\<open>insert_null\<close> with two
  null pointer variables, keeps the pair it gets back, and passes the pair of an
  earlier \<^verbatim>\<open>insert_null\<close> (by its number, counted from 0) to
  \<^verbatim>\<open>insert_bitmap_content\<close>, in any order. \<open>get_after\<close> and \<open>groups_after\<close> run
  the calls on a fresh controller and then read a bitmap or the groups.
\<close>

datatype call = InsertNull int "uint8_t list" | InsertBitmapContent nat "uint8_t list"

fun run ::
  "call list \<Rightarrow> (addr option \<times> addr option) list \<times> BitmapController
     \<Rightarrow> fault + ((addr option \<times> addr option) list \<times> BitmapController)" where
  "run [] s = Inr s"
| "run (InsertNull new_csn original_bitmap # cs) (hs, st) =
     (case insert_null new_csn original_bitmap (None, None) st of
        Inl f \<Rightarrow> Inl f
      | Inr (ok, h, st') \<Rightarrow> run cs (hs @ [h], st'))"
| "run (InsertBitmapContent k original_bitmap # cs) (hs, st) =
     (if k < length hs
      then (case insert_bitmap_content (fst (hs ! k)) (snd (hs ! k)) original_bitmap st of
              Inl f \<Rightarrow> Inl f
            | Inr (ok, st') \<Rightarrow> run cs (hs, st'))
      else Inl InvalidPointer)"

definition get_after :: "call list \<Rightarrow> int \<Rightarrow> uint8_t list \<Rightarrow> fault + (bool \<times> uint8_t list)" where
  "get_after calls require_csn bitmap_result =
     (case run calls ([], BitmapController_init) of
        Inl f \<Rightarrow> Inl f
      | Inr (hs, st) \<Rightarrow> get_bitmap st require_csn bitmap_result)"

definition groups_after :: "call list \<Rightarrow> BitmapRef list" where
  "groups_after calls =
     (case run calls ([], BitmapController_init) of
        Inl f \<Rightarrow> []
      | Inr (hs, st) \<Rightarrow> first_ref st)"

text \<open>An image given by its leading bytes, the rest of the \<^verbatim>\<open>BITMAP_SIZE\<close> bytes zero.\<close>

definition image_of_bytes :: "uint8_t list \<Rightarrow> uint8_t list" where
  "image_of_bytes leading = leading @ replicate (BITMAP_SIZE - length leading) 0"

section \<open>Notions of the specification\<close>

text \<open>
  A sparse payload as the data model has it: the count, then as many strictly
  ascending bit positions below \<^verbatim>\<open>8 * BITMAP_SIZE\<close>.
\<close>

definition sparse_payload :: "uint16_t list \<Rightarrow> bool" where
  "sparse_payload a =
     (case a of
        [] \<Rightarrow> False
      | c # ps \<Rightarrow> unat c = length ps \<and> sorted_wrt (<) ps \<and> list_all (\<lambda>p. unat p < 8 * BITMAP_SIZE) ps)"

text \<open>
  Bit position \<open>p\<close> of an image is bit \<open>7 - p mod 8\<close> of byte \<open>p div 8\<close>; the bit
  positions two images differ at, ascending, are what the bit count of their XOR
  counts.
\<close>

definition bit_at :: "uint8_t list \<Rightarrow> nat \<Rightarrow> bool" where
  "bit_at bm p = bit (bm ! (p div 8)) (7 - p mod 8)"

definition diff_positions :: "uint8_t list \<Rightarrow> uint8_t list \<Rightarrow> nat list" where
  "diff_positions B R = filter (\<lambda>p. bit_at B p \<noteq> bit_at R p) [0..<8 * BITMAP_SIZE]"

text \<open>
  What a call leaves of a group: its address, its reference, the lower end of its
  range, the addresses and CSNs along its chain, with the upper end of the range no
  smaller than before. And what holds of every group of a reachable controller: its
  chain is not empty and no longer than \<^verbatim>\<open>MAX_COMPRESS_NUM\<close>, the lower end of its
  range is the CSN of the oldest node, the one the group was created with, and the
  range is not empty.
\<close>

definition same_group :: "BitmapRef \<Rightarrow> BitmapRef \<Rightarrow> bool" where
  "same_group g g' =
     (ref_addr g' = ref_addr g \<and> fst (csn_range g') = fst (csn_range g) \<and>
      snd (csn_range g) \<le> snd (csn_range g') \<and>
      complete_bitmap g' = complete_bitmap g \<and>
      map bitmap_addr (first_compressed_bitmap g') = map bitmap_addr (first_compressed_bitmap g) \<and>
      map bitmap_csn (first_compressed_bitmap g') = map bitmap_csn (first_compressed_bitmap g))"

definition group_ok :: "BitmapRef \<Rightarrow> bool" where
  "group_ok g =
     (first_compressed_bitmap g \<noteq> [] \<and>
      int (length (first_compressed_bitmap g)) \<le> MAX_COMPRESS_NUM \<and>
      fst (csn_range g) = bitmap_csn (last (first_compressed_bitmap g)) \<and>
      fst (csn_range g) \<le> snd (csn_range g))"

definition controller_ok :: "BitmapController \<Rightarrow> bool" where
  "controller_ok st =
     (list_all group_ok (first_ref st) \<and>
      (case first_ref st of
         [] \<Rightarrow> head_bitmap_cnt st = MAX_COMPRESS_NUM
       | g # gs \<Rightarrow> int (length (first_compressed_bitmap g)) = head_bitmap_cnt st))"

definition range_kept :: "BitmapRef \<Rightarrow> BitmapRef \<Rightarrow> bool" where
  "range_kept g g' =
     (ref_addr g' = ref_addr g \<and> fst (csn_range g') = fst (csn_range g) \<and>
      snd (csn_range g) \<le> snd (csn_range g') \<and>
      bitmap_addr (last (first_compressed_bitmap g')) = bitmap_addr (last (first_compressed_bitmap g)))"

section \<open>Properties of the codec\<close>

lemma BITMAP_SIZE_div_16: "BITMAP_SIZE div 16 = 468"
  by (simp add: BITMAP_SIZE_def)

subsection \<open>The sorted-index union\<close>

lemma set_union_loop: "set (union_loop xs ys) = set xs \<union> set ys"
  by (induction xs ys rule: union_loop.induct) auto

lemma sorted_union_loop:
  "sorted_wrt (<) xs \<Longrightarrow> sorted_wrt (<) ys \<Longrightarrow> sorted_wrt (<) (union_loop xs ys)"
  by (induction xs ys rule: union_loop.induct) (auto simp: set_union_loop)

lemma length_bounded_positions:
  fixes ps :: "uint16_t list"
  assumes "distinct ps" "list_all (\<lambda>p. unat p < n) ps"
  shows "length ps \<le> n"
proof -
  have "inj_on unat (set ps)" by (rule inj_onI) (simp add: word_unat_eq_iff)
  then have "card (unat ` set ps) = card (set ps)" by (rule card_image)
  moreover have "unat ` set ps \<subseteq> {..<n}" using assms(2) by (auto simp: list_all_iff)
  then have "card (unat ` set ps) \<le> card {..<n}" by (intro card_mono) auto
  ultimately show ?thesis using assms(1) by (simp add: distinct_card)
qed

text \<open>
  Claim C7. For two sparse payloads \<open>a\<close> and \<open>b\<close> (count in slot 0, then strictly
  ascending positions), \<^verbatim>\<open>union_sorted_array\<close> returns and replaces \<open>a\<close> by a sparse
  payload again: its positions are strictly ascending and free of duplicates, they are
  the set union of the positions of \<open>a\<close> and of \<open>b\<close> (the sorted list of that set, so
  a position in both appears once), slot 0 holds their number, and \<open>b\<close> is as it was.
\<close>

theorem union_sorted_array_set_union:
  assumes "sparse_payload a" and "sparse_payload b"
  shows "\<exists>a'. union_sorted_array a b = Inr (a', b) \<and> sparse_payload a' \<and>
           unat (hd a') = length (tl a') \<and>
           sorted_wrt (<) (tl a') \<and> distinct (tl a') \<and>
           set (tl a') = set (tl a) \<union> set (tl b) \<and>
           tl a' = sorted_list_of_set (set (tl a) \<union> set (tl b))"
proof -
  from assms(1) obtain a0 xs where a: "a = a0 # xs" "unat a0 = length xs" "sorted_wrt (<) xs"
    "list_all (\<lambda>p. unat p < 8 * BITMAP_SIZE) xs"
    by (auto simp: sparse_payload_def split: list.splits)
  from assms(2) obtain b0 ys where b: "b = b0 # ys" "unat b0 = length ys" "sorted_wrt (<) ys"
    "list_all (\<lambda>p. unat p < 8 * BITMAP_SIZE) ys"
    by (auto simp: sparse_payload_def split: list.splits)
  let ?t = "union_loop xs ys"
  have srt: "sorted_wrt (<) ?t" using a(3) b(3) by (rule sorted_union_loop)
  then have dist: "distinct ?t" by (simp add: strict_sorted_iff)
  have bnd: "list_all (\<lambda>p. unat p < 8 * BITMAP_SIZE) ?t"
    using a(4) b(4) by (auto simp: list_all_iff set_union_loop)
  have "length ?t \<le> 8 * BITMAP_SIZE" using dist bnd by (rule length_bounded_positions)
  then have cnt: "unat (of_nat (length ?t) :: uint16_t) = length ?t"
    by (simp add: BITMAP_SIZE_def unat_of_nat)
  have res: "union_sorted_array a b = Inr (of_nat (length ?t) # ?t, b)"
    by (simp add: union_sorted_array_def a b Let_def)
  have "?t = sorted_list_of_set (set xs \<union> set ys)"
    using srt dist by (metis set_union_loop sorted_list_of_set.idem_if_sorted_distinct strict_sorted_iff)
  then show ?thesis using res srt dist bnd cnt
    by (simp add: sparse_payload_def set_union_loop a b)
qed

theorem union_sorted_array_set_union_witness:
  "sparse_payload [2, 10, 20] \<and> sparse_payload [2, 20, 30] \<and>
   union_sorted_array [2, 10, 20] [2, 20, 30] = Inr ([3, 10, 20, 30], [2, 20, 30])"
proof -
  have a: "sparse_payload [2, 10, 20]" by (simp add: sparse_payload_def BITMAP_SIZE_def)
  have b: "sparse_payload [2, 20, 30]" by (simp add: sparse_payload_def BITMAP_SIZE_def)
  from union_sorted_array_set_union [OF a b] a b show ?thesis
    by (simp add: union_sorted_array_def)
qed

subsection \<open>The encoding chosen by compress_bitmap\<close>

lemma byte_bits_bit: "byte_bits t = filter (\<lambda>j. bit t (7 - j)) [0..<8]"
  by (simp add: byte_bits_def bit_iff_and_push_bit_not_eq_0)

lemma byte_bits_zero: "byte_bits 0 = []"
  by (simp add: byte_bits_bit)

lemma upt_block: "[8 * i..<8 * i + 8] = map (\<lambda>j. i * 8 + j) [0..<8]"
  by (simp add: map_add_upt mult.commute add.commute)

lemma fill_positions_filter:
  "fill_positions i ts =
     map of_nat (filter (\<lambda>p. bit (ts ! (p div 8 - i)) (7 - p mod 8)) [8 * i..<8 * (i + length ts)])"
proof (induction ts arbitrary: i)
  case Nil
  show ?case by simp
next
  case (Cons t ts)
  have split: "[8 * i..<8 * (i + length (t # ts))] = [8 * i..<8 * i + 8] @ [8 * (i + 1)..<8 * (i + 1 + length ts)]"
    using upt_add_eq_append[of "8 * i" "8 * i + 8" "8 * length ts"] by (simp add: algebra_simps)
  have first: "filter (\<lambda>p. bit ((t # ts) ! (p div 8 - i)) (7 - p mod 8)) [8 * i..<8 * i + 8]
      = map (\<lambda>j. i * 8 + j) (byte_bits t)"
    unfolding upt_block byte_bits_bit filter_map
    by (rule arg_cong[where f = "map _"], rule filter_cong) (auto simp: comp_def)
  have second: "filter (\<lambda>p. bit ((t # ts) ! (p div 8 - i)) (7 - p mod 8)) [8 * (i + 1)..<8 * (i + 1 + length ts)]
      = filter (\<lambda>p. bit (ts ! (p div 8 - (i + 1))) (7 - p mod 8)) [8 * (i + 1)..<8 * (i + 1 + length ts)]"
  proof (rule filter_cong[OF refl])
    fix p assume "p \<in> set [8 * (i + 1)..<8 * (i + 1 + length ts)]"
    then have "i + 1 \<le> p div 8" by auto
    then have "p div 8 - i = Suc (p div 8 - (i + 1))" by simp
    then show "bit ((t # ts) ! (p div 8 - i)) (7 - p mod 8) = bit (ts ! (p div 8 - (i + 1))) (7 - p mod 8)"
      by simp
  qed
  show ?case
    unfolding split filter_append map_append first second
    using Cons.IH[of "i + 1"] by (simp add: byte_bits_zero)
qed

lemma count_bits_length: "count_bits ts acc = acc + int (length (fill_positions i ts))"
proof (induction ts arbitrary: acc i)
  case Nil
  show ?case by simp
next
  case (Cons t ts)
  show ?case
    using Cons.IH[of "if t \<noteq> 0 then acc + int (length (byte_bits t)) else acc" "i + 1"]
    by simp
qed

lemma xor_function_nth:
  "length a = BITMAP_SIZE \<Longrightarrow> length b = BITMAP_SIZE \<Longrightarrow> k < BITMAP_SIZE \<Longrightarrow>
     xor_function a b ! k = a ! k XOR b ! k"
  by (simp add: xor_function_def)

lemma length_xor_function:
  "length a = BITMAP_SIZE \<Longrightarrow> length b = BITMAP_SIZE \<Longrightarrow> length (xor_function a b) = BITMAP_SIZE"
  by (simp add: xor_function_def)

lemma fill_positions_xor:
  assumes "length B = BITMAP_SIZE" "length R = BITMAP_SIZE"
  shows "fill_positions 0 (xor_function B R) = map of_nat (diff_positions B R)"
proof -
  have "filter (\<lambda>p. bit (xor_function B R ! (p div 8)) (7 - p mod 8)) [0..<8 * BITMAP_SIZE]
      = diff_positions B R"
    unfolding diff_positions_def
  proof (rule filter_cong[OF refl])
    fix p assume "p \<in> set [0..<8 * BITMAP_SIZE]"
    then have "p div 8 < BITMAP_SIZE" by auto
    then show "bit (xor_function B R ! (p div 8)) (7 - p mod 8) = (bit_at B p \<noteq> bit_at R p)"
      using assms by (simp add: xor_function_nth bit_at_def bit_xor_iff)
  qed
  then show ?thesis
    using fill_positions_filter[of 0 "xor_function B R"] assms by (simp add: length_xor_function)
qed

lemma diff_positions_bound: "list_all (\<lambda>p. p < 8 * BITMAP_SIZE) (diff_positions B R)"
  by (simp add: diff_positions_def list_all_iff)

lemma diff_positions_sorted: "sorted_wrt (<) (diff_positions B R)"
  by (simp add: diff_positions_def sorted_wrt_filter)

lemma diff_positions_unat:
  "map unat (map of_nat (diff_positions B R) :: uint16_t list) = diff_positions B R"
proof -
  have "\<forall>p \<in> set (diff_positions B R). unat (of_nat p :: uint16_t) = p"
    using diff_positions_bound[of B R] by (auto simp: list_all_iff unat_of_nat BITMAP_SIZE_def)
  then show ?thesis by (simp add: map_idI)
qed

lemma compress_bitmap_encoding:
  assumes "length B = BITMAP_SIZE" and "length R = BITMAP_SIZE"
  shows "compress_bitmap B R =
           (if 468 \<le> length (diff_positions B R)
            then (pack_pairs B, False)
            else (of_nat (length (diff_positions B R)) # map of_nat (diff_positions B R), True))"
proof -
  have "count_bits (xor_function B R) 0 = int (length (diff_positions B R))"
    using count_bits_length[of "xor_function B R" 0 0] fill_positions_xor[OF assms] by simp
  then show ?thesis
    using assms fill_positions_xor[OF assms]
    by (simp add: compress_bitmap_def Let_def BITMAP_SIZE_div_16)
qed

text \<open>
  Claim C3, amended. For a reference and an image of \<^verbatim>\<open>BITMAP_SIZE\<close> bytes,
  \<^verbatim>\<open>compress_bitmap\<close> chooses the dense encoding (flag false, the packed original) if
  and only if the two differ at 468 or more bit positions, 468 being
  \<^verbatim>\<open>BITMAP_SIZE / 16\<close> in the integer arithmetic of the source; below that it returns
  the sparse encoding, the number of differing positions followed by the positions in
  ascending order, each fitting its 16-bit word.
\<close>

theorem compress_bitmap_choice:
  assumes "length B = BITMAP_SIZE" and "length R = BITMAP_SIZE"
  shows "compress_bitmap B R =
           (if 468 \<le> length (diff_positions B R)
            then (pack_pairs B, False)
            else (of_nat (length (diff_positions B R)) # map of_nat (diff_positions B R), True))
         \<and> BITMAP_SIZE div 16 = 468
         \<and> sorted_wrt (<) (diff_positions B R)
         \<and> map unat (map of_nat (diff_positions B R) :: uint16_t list) = diff_positions B R"
  using compress_bitmap_encoding[OF assms] diff_positions_sorted[of B R]
    diff_positions_unat[of B R] BITMAP_SIZE_div_16
  by simp

lemma byte_bits_255: "byte_bits 255 = [0,1,2,3,4,5,6,7]"
  by (simp add: byte_bits_def upt_rec)

lemma byte_bits_240: "byte_bits 240 = [0,1,2,3]"
  by (simp add: byte_bits_def upt_rec)

lemma count_bits_append: "count_bits (xs @ ys) acc = count_bits ys (count_bits xs acc)"
  by (induction xs arbitrary: acc) auto

lemma count_bits_replicate_zero: "count_bits (replicate n 0) acc = acc"
  by (induction n) auto

lemma count_bits_replicate: "t \<noteq> 0 \<Longrightarrow> count_bits (replicate n t) acc = acc + int n * int (length (byte_bits t))"
  by (induction n arbitrary: acc) (auto simp: algebra_simps)

lemma xor_function_zero:
  assumes "length a = BITMAP_SIZE"
  shows "xor_function a (replicate BITMAP_SIZE 0) = a"
  using assms by (intro nth_equalityI) (simp_all add: xor_function_def)

text \<open>
  Claim C3 as stated fails at 468 differing bits, which is below 469: the image whose
  first 58 bytes are \<open>0xFF\<close> and whose 59th byte is \<open>0xF0\<close> differs from the all-zero
  reference at exactly 468 bit positions, and \<^verbatim>\<open>compress_bitmap\<close> returns the dense
  encoding for it.
\<close>

theorem compress_bitmap_469_counterexample:
  "length (diff_positions (replicate 58 255 @ [240] @ replicate 7441 0) (replicate BITMAP_SIZE 0)) = 468 \<and>
   compress_bitmap (replicate 58 255 @ [240] @ replicate 7441 0) (replicate BITMAP_SIZE 0)
     = (pack_pairs (replicate 58 255 @ [240] @ replicate 7441 0), False)"
proof -
  let ?B = "replicate 58 255 @ [240] @ replicate 7441 0 :: uint8_t list"
  let ?R = "replicate BITMAP_SIZE 0 :: uint8_t list"
  have len: "length ?B = BITMAP_SIZE" "length ?R = BITMAP_SIZE" by (simp_all add: BITMAP_SIZE_def)
  have "count_bits (xor_function ?B ?R) 0 = 468"
    unfolding xor_function_zero[OF len(1)]
    by (simp add: count_bits_append count_bits_replicate count_bits_replicate_zero byte_bits_255 byte_bits_240)
  moreover have "count_bits (xor_function ?B ?R) 0 = int (length (diff_positions ?B ?R))"
    using count_bits_length[of "xor_function ?B ?R" 0 0] fill_positions_xor[OF len] by simp
  ultimately have n: "length (diff_positions ?B ?R) = 468" by simp
  show ?thesis using compress_bitmap_encoding[OF len] n by simp
qed

theorem compress_bitmap_choice_witness:
  "length (replicate BITMAP_SIZE 0 :: uint8_t list) = BITMAP_SIZE \<and>
   length (replicate BITMAP_SIZE 255 :: uint8_t list) = BITMAP_SIZE \<and>
   compress_bitmap (replicate BITMAP_SIZE 0) (replicate BITMAP_SIZE 0) = ([0], True) \<and>
   length (diff_positions (replicate BITMAP_SIZE 255) (replicate BITMAP_SIZE 0)) = 60000 \<and>
   compress_bitmap (replicate BITMAP_SIZE 255) (replicate BITMAP_SIZE 0)
     = (pack_pairs (replicate BITMAP_SIZE 255), False)"
proof -
  let ?Z = "replicate BITMAP_SIZE 0 :: uint8_t list"
  let ?F = "replicate BITMAP_SIZE 255 :: uint8_t list"
  have len: "length ?Z = BITMAP_SIZE" "length ?F = BITMAP_SIZE" by simp_all
  have d: "diff_positions ?Z ?Z = []"
    by (simp add: diff_positions_def)
  have "count_bits (xor_function ?F ?Z) 0 = 60000"
    unfolding xor_function_zero[OF len(2)]
    by (simp add: count_bits_replicate byte_bits_255) (simp add: BITMAP_SIZE_def)
  moreover have "count_bits (xor_function ?F ?Z) 0 = int (length (diff_positions ?F ?Z))"
    using count_bits_length[of "xor_function ?F ?Z" 0 0] fill_positions_xor[OF len(2,1)] by simp
  ultimately have n: "length (diff_positions ?F ?Z) = 60000" by simp
  show ?thesis
    using compress_bitmap_choice[OF len(1,1)] compress_bitmap_choice[OF len(2,1)] d n by simp
qed

subsection \<open>Decoding\<close>

lemma unpack_low: "ucast ((ucast (b0 :: uint8_t) OR push_bit 8 (ucast (b1 :: uint8_t)) :: uint16_t) AND 0xFF) = b0"
proof -
  have m: "(0xFF :: uint16_t) = mask 8" by (simp add: mask_eq_exp_minus_1)
  show ?thesis unfolding m by (rule bit_word_eqI) (auto simp: bit_simps)
qed

lemma unpack_high: "ucast (drop_bit 8 (ucast (b0 :: uint8_t) OR push_bit 8 (ucast (b1 :: uint8_t)) :: uint16_t) AND 0xFF) = b1"
proof -
  have m: "(0xFF :: uint16_t) = mask 8" by (simp add: mask_eq_exp_minus_1)
  show ?thesis unfolding m by (rule bit_word_eqI) (auto simp: bit_simps dest: bit_imp_le_length)
qed

lemma xor_dense_pack_pairs:
  "length R = length B \<Longrightarrow> even (length B) \<Longrightarrow> xor_dense R (pack_pairs B) = map2 (XOR) R B"
proof (induction B arbitrary: R rule: pack_pairs.induct)
  case (1 b0 b1 bs)
  then obtain r0 r1 rs where R: "R = r0 # r1 # rs" by (cases R; cases "tl R") auto
  have "xor_dense R (pack_pairs (b0 # b1 # bs)) = (r0 XOR b0) # (r1 XOR b1) # xor_dense rs (pack_pairs bs)"
    unfolding R pack_pairs.simps xor_dense.simps unpack_low unpack_high ..
  with 1 R show ?case by simp
qed simp_all

lemma length_pack_pairs: "length (pack_pairs B) = length B div 2"
  by (induction B rule: pack_pairs.induct) auto

lemma decompress_bitmap_dense:
  assumes "length R = BITMAP_SIZE" "length B = BITMAP_SIZE" "length out = BITMAP_SIZE"
  shows "decompress_bitmap out R (Some (pack_pairs B)) False = Inr (map2 (XOR) R B)"
proof -
  have "even (length B)" using assms by (simp add: BITMAP_SIZE_def)
  then show ?thesis
    using assms xor_dense_pack_pairs[of R B]
    by (simp add: decompress_bitmap_def length_pack_pairs)
qed

lemma bit_at_toggle:
  assumes "i < length r" "j < 8"
  shows "bit_at (r[i := r ! i XOR push_bit (7 - j) 1]) q = (bit_at r q \<noteq> (q = 8 * i + j))"
proof (cases "q div 8 = i")
  case True
  have "(7 - q mod 8 = 7 - j) = (q mod 8 = j)" using assms(2) by auto
  moreover have "(q = 8 * i + j) = (q mod 8 = j)"
  proof (rule iffI)
    assume e: "q = 8 * i + j"
    have "(8 * i + j) mod 8 = j" using assms(2) by simp
    then show "q mod 8 = j" by (simp only: e)
  next
    assume "q mod 8 = j"
    then show "q = 8 * i + j" using mult_div_mod_eq[of 8 q] True by simp
  qed
  ultimately show ?thesis
    using True assms by (auto simp: bit_at_def bit_simps)
next
  case False
  then have "q \<noteq> 8 * i + j" using assms(2) by auto
  with False show ?thesis by (simp add: bit_at_def)
qed

lemma toggle_positions_bits:
  assumes "list_all (\<lambda>p. unat p < 8 * length r) ps" and "distinct ps"
  shows "\<exists>r'. toggle_positions ps r = Inr r' \<and> length r' = length r \<and>
           (\<forall>q. bit_at r' q = (bit_at r q \<noteq> (q \<in> unat ` set ps)))"
  using assms
proof (induction ps arbitrary: r)
  case Nil
  show ?case by simp
next
  case (Cons p ps)
  let ?i = "unat p div 8" and ?j = "unat p mod 8"
  let ?r1 = "r[?i := r ! ?i XOR push_bit (7 - ?j) 1]"
  have i: "?i < length r" using Cons.prems(1) by (simp add: less_mult_imp_div_less mult.commute)
  have step: "toggle_positions (p # ps) r = toggle_positions ps ?r1"
    using i by (simp add: Let_def)
  have "list_all (\<lambda>p. unat p < 8 * length ?r1) ps" using Cons.prems(1) by simp
  moreover have "distinct ps" using Cons.prems(2) by simp
  ultimately obtain r' where r': "toggle_positions ps ?r1 = Inr r'" "length r' = length ?r1"
    "\<forall>q. bit_at r' q = (bit_at ?r1 q \<noteq> (q \<in> unat ` set ps))"
    using Cons.IH[of ?r1] by blast
  have one: "bit_at ?r1 q = (bit_at r q \<noteq> (q = unat p))" for q
    using bit_at_toggle[OF i, of ?j q] by simp
  have notin: "unat p \<notin> unat ` set ps"
    using Cons.prems(2) by (auto dest!: word_unat_eq_iff[THEN iffD2])
  have "bit_at r' q = (bit_at r q \<noteq> (q \<in> unat ` set (p # ps)))" for q
    using r'(3) one[of q] notin by auto
  then show ?case using step r'(1,2) by simp
qed

lemma bitmap_eqI:
  assumes "length a = length b" and "\<And>q. q < 8 * length a \<Longrightarrow> bit_at a q = bit_at b q"
  shows "a = b"
proof (rule nth_equalityI)
  show "length a = length b" by fact
next
  fix i assume i: "i < length a"
  show "a ! i = b ! i"
  proof (rule bit_word_eqI)
    fix n assume "n < LENGTH(8)"
    then have n: "n < 8" by simp
    define k where "k = 7 - n"
    have k: "k < 8" "7 - k = n" using n by (simp_all add: k_def)
    have "(8 * i + k) div 8 = i" "(8 * i + k) mod 8 = k" using k(1) by simp_all
    moreover have "8 * i + k < 8 * length a" using i k(1) by simp
    ultimately show "bit (a ! i) n = bit (b ! i) n"
      using assms(2)[of "8 * i + k"] k(2) by (simp add: bit_at_def)
  qed
qed

lemma set_diff_positions:
  "set (diff_positions B R) = {q. q < 8 * BITMAP_SIZE \<and> bit_at B q \<noteq> bit_at R q}"
  by (auto simp: diff_positions_def)

lemma decompress_bitmap_sparse:
  assumes "length R = BITMAP_SIZE" "length B = BITMAP_SIZE" "length out = BITMAP_SIZE"
    and "length (diff_positions B R) < 65536"
  shows "decompress_bitmap out R
           (Some (of_nat (length (diff_positions B R)) # map of_nat (diff_positions B R))) True = Inr B"
proof -
  let ?dp = "diff_positions B R"
  let ?ps = "map of_nat ?dp :: uint16_t list"
  have un: "map unat ?ps = ?dp" by (rule diff_positions_unat)
  have "\<forall>q\<in>set ?dp. unat (of_nat q :: uint16_t) < 8 * length R"
    using diff_positions_bound[of B R] assms(1)
    by (auto simp: list_all_iff unat_of_nat BITMAP_SIZE_def)
  then have bnd: "list_all (\<lambda>p. unat p < 8 * length R) ?ps"
    by (simp add: list_all_iff)
  have "distinct (map unat ?ps)"
    using diff_positions_sorted[of B R] by (simp only: un strict_sorted_iff)
  then have dist: "distinct ?ps"
    by (rule distinct_map[THEN iffD1, THEN conjunct1])
  obtain r' where r': "toggle_positions ?ps R = Inr r'" "length r' = length R"
    "\<forall>q. bit_at r' q = (bit_at R q \<noteq> (q \<in> unat ` set ?ps))"
    using toggle_positions_bits[OF bnd dist] by blast
  have "set (map unat ?ps) = set ?dp" by (simp only: un)
  then have "unat ` set ?ps = set ?dp" by (simp only: set_map)
  then have "bit_at r' q = bit_at B q" if "q < 8 * length r'" for q
    using r'(3) that r'(2) assms(1) by (auto simp: set_diff_positions)
  then have "r' = B" using r'(2) assms(1,2) by (intro bitmap_eqI) simp_all
  moreover have "unat (of_nat (length ?dp) :: uint16_t) = length ?dp"
    using assms(4) by (simp add: unat_of_nat)
  ultimately show ?thesis using r'(1) assms(1,3)
    by (simp add: decompress_bitmap_def)
qed

lemma decompress_compress_sparse:
  assumes "length R = BITMAP_SIZE" "length B = BITMAP_SIZE" "length out = BITMAP_SIZE"
    and "snd (compress_bitmap B R)"
  shows "decompress_bitmap out R (Some (fst (compress_bitmap B R))) (snd (compress_bitmap B R)) = Inr B"
proof -
  have c: "compress_bitmap B R =
           (if 468 \<le> length (diff_positions B R)
            then (pack_pairs B, False)
            else (of_nat (length (diff_positions B R)) # map of_nat (diff_positions B R), True))"
    using compress_bitmap_encoding[OF assms(2,1)] .
  with assms(4) have small: "length (diff_positions B R) < 468" by (auto split: if_splits)
  then show ?thesis using c decompress_bitmap_sparse[OF assms(1,2,3)] by simp
qed

lemma decompress_compress_dense:
  assumes "length R = BITMAP_SIZE" "length B = BITMAP_SIZE" "length out = BITMAP_SIZE"
    and "\<not> snd (compress_bitmap B R)"
  shows "decompress_bitmap out R (Some (fst (compress_bitmap B R))) (snd (compress_bitmap B R))
           = Inr (map2 (XOR) R B)"
proof -
  have "compress_bitmap B R = (pack_pairs B, False)"
    using compress_bitmap_encoding[OF assms(2,1)] assms(4) by (auto split: if_splits)
  then show ?thesis using decompress_bitmap_dense[OF assms(1,2,3)] by simp
qed

text \<open>
  Claim C2 at a failing input. Against the reference of 7500 bytes \<open>0xFF\<close>, the
  all-zero image differs at 60000 positions and is encoded densely, as the packed
  image itself; \<^verbatim>\<open>decompress_bitmap\<close> XORs that payload into the reference and
  returns 7500 bytes \<open>0xFF\<close>, not the image.
\<close>

theorem decompress_compress_dense_failing:
  "snd (compress_bitmap (replicate BITMAP_SIZE 0) (replicate BITMAP_SIZE 255)) = False \<and>
   decompress_bitmap (replicate BITMAP_SIZE 0) (replicate BITMAP_SIZE 255)
       (Some (fst (compress_bitmap (replicate BITMAP_SIZE 0) (replicate BITMAP_SIZE 255))))
       (snd (compress_bitmap (replicate BITMAP_SIZE 0) (replicate BITMAP_SIZE 255)))
     = Inr (replicate BITMAP_SIZE 255) \<and>
   replicate BITMAP_SIZE 255 \<noteq> (replicate BITMAP_SIZE 0 :: uint8_t list)"
proof -
  let ?B = "replicate BITMAP_SIZE 0 :: uint8_t list"
  let ?R = "replicate BITMAP_SIZE 255 :: uint8_t list"
  have x: "xor_function ?B ?R = ?R" by (simp add: xor_function_def)
  have c: "count_bits ?R 0 = 60000"
    by (simp add: count_bits_replicate byte_bits_255) (simp add: BITMAP_SIZE_def)
  have enc: "compress_bitmap ?B ?R = (pack_pairs ?B, False)"
    by (simp add: compress_bitmap_def x c BITMAP_SIZE_div_16)
  have dec: "decompress_bitmap ?B ?R (Some (pack_pairs ?B)) False = Inr (map2 (XOR) ?R ?B)"
    by (rule decompress_bitmap_dense) simp_all
  have ne: "?R \<noteq> ?B" by (simp add: BITMAP_SIZE_def replicate_eq_replicate)
  show ?thesis using enc dec ne by simp
qed

section \<open>Properties of the version chain\<close>

subsection \<open>Reads\<close>

lemma search_chain_false:
  "search_chain reference ns require_csn bitmap_result = Inr (False, out) \<Longrightarrow> out = bitmap_result"
  by (induction ns) (auto split: if_splits sum.splits)

text \<open>
  Claim C10. When \<^verbatim>\<open>get_bitmap\<close> returns false, the buffer of the caller is as it
  was before the call.
\<close>

theorem get_bitmap_false_leaves_buffer:
  "get_bitmap st require_csn bitmap_result = Inr (False, out) \<Longrightarrow> out = bitmap_result"
  by (auto simp: get_bitmap_def split: option.splits dest: search_chain_false)

theorem get_bitmap_false_leaves_buffer_witness:
  "get_bitmap BitmapController_init 5 [1, 2, 3] = Inr (False, [1, 2, 3])"
proof -
  have g: "get_bitmap BitmapController_init 5 [1, 2, 3] = Inr (False, [1, 2, 3])"
    by (simp add: get_bitmap_def BitmapController_init_def)
  from get_bitmap_false_leaves_buffer[OF g] g show ?thesis by simp
qed


lemma select_ref_below_all:
  "list_all (\<lambda>g. require_csn < fst (csn_range g)) gs \<Longrightarrow> select_ref gs require_csn = None"
  by (induction gs) auto

subsection \<open>What the inserts keep\<close>

lemma store_payload_shape:
  "map bitmap_addr (store_payload b enc ns) = map bitmap_addr ns"
  "map bitmap_csn (store_payload b enc ns) = map bitmap_csn ns"
  by (simp_all add: store_payload_def)

lemma union_from_shape:
  "union_from ns b p = Inr ns' \<Longrightarrow>
     map bitmap_addr ns' = map bitmap_addr ns \<and> map bitmap_csn ns' = map bitmap_csn ns"
  by (induction ns arbitrary: ns') (auto split: if_splits option.splits sum.splits simp: union_sorted_array_def Let_def split: list.splits)

lemma propagate_shape:
  "propagate ns s b p = Inr ns' \<Longrightarrow>
     map bitmap_addr ns' = map bitmap_addr ns \<and> map bitmap_csn ns' = map bitmap_csn ns"
proof (induction ns arbitrary: ns')
  case Nil
  then show ?case by simp
next
  case (Cons n ns)
  show ?case
  proof (cases "bitmap_addr n = s")
    case True
    with Cons.prems show ?thesis using union_from_shape[of "n # ns" b p ns'] by simp
  next
    case False
    with Cons show ?thesis by (auto split: sum.splits)
  qed
qed

lemma locked_update_same_group:
  assumes "locked_update b c payload g = Inr g'"
  shows "same_group g g'"
proof -
  let ?chain = "first_compressed_bitmap g"
  obtain t s where sc: "scan_chain ?chain b (- 1, None) = (t, s)" by (cases "scan_chain ?chain b (- 1, None)")
  obtain chain' where c: "(case s of None \<Rightarrow> Inr ?chain | Some start \<Rightarrow> propagate ?chain start b payload) = Inr chain'"
    and g': "g' = g\<lparr>bitmap_cnt := bitmap_cnt g + 1,
                     csn_range := (fst (csn_range g), max (snd (csn_range g)) (if t = - 1 then c else t)),
                     first_compressed_bitmap := chain'\<rparr>"
    using assms sc by (auto simp: locked_update_def Let_def split: sum.splits)
  have "map bitmap_addr chain' = map bitmap_addr ?chain \<and> map bitmap_csn chain' = map bitmap_csn ?chain"
    using c propagate_shape by (cases s) auto
  then show ?thesis by (simp add: same_group_def g')
qed

lemma same_group_trans: "same_group a b \<Longrightarrow> same_group b c \<Longrightarrow> same_group a c"
  by (auto simp: same_group_def)

lemma store_payload_refs_same_group: "list_all2 same_group refs (store_payload_refs b enc refs)"
  by (induction refs) (simp_all add: store_payload_refs_def same_group_def store_payload_shape)

lemma update_ref_same_group:
  assumes "update_ref r f gs = Inr gs'" and "\<And>g g'. f g = Inr g' \<Longrightarrow> same_group g g'"
  shows "list_all2 same_group gs gs'"
  using assms(1)
proof (induction gs arbitrary: gs')
  case Nil
  then show ?case by simp
next
  case (Cons g gs)
  have refl: "list_all2 same_group gs gs" by (simp add: list_all2_refl same_group_def)
  from Cons show ?case
    by (auto split: if_splits sum.splits simp: refl assms(2) same_group_def[of g g])
qed

lemma insert_bitmap_content_same_group:
  assumes "insert_bitmap_content ref bitmap B st = Inr (ok, st')"
  shows "list_all2 same_group (first_ref st) (first_ref st') \<and>
         head_bitmap_cnt st' = head_bitmap_cnt st \<and> next_addr st' = next_addr st"
proof -
  from assms obtain r where r: "ref = Some r"
    by (cases ref) (simp_all add: insert_bitmap_content_def)
  from assms r obtain b where b: "bitmap = Some b"
    by (cases bitmap) (simp_all add: insert_bitmap_content_def)
  from assms r b obtain g where g: "find (\<lambda>g. ref_addr g = r) (first_ref st) = Some g"
    by (cases "find (\<lambda>g. ref_addr g = r) (first_ref st)") (simp_all add: insert_bitmap_content_def)
  from assms r b g obtain node where n: "find_bitmap b (first_ref st) = Some node"
    by (cases "find_bitmap b (first_ref st)") (simp_all add: insert_bitmap_content_def)
  let ?enc = "compress_bitmap B (complete_bitmap g)"
  let ?refs1 = "store_payload_refs b ?enc (first_ref st)"
  from assms obtain refs' where
    u: "update_ref r (locked_update b (bitmap_csn node) (fst ?enc)) ?refs1 = Inr refs'"
    and st': "st' = st\<lparr>first_ref := refs'\<rparr>"
    by (cases "update_ref r (locked_update b (bitmap_csn node) (fst ?enc)) ?refs1")
       (auto simp: insert_bitmap_content_def r b g n Let_def)
  have "list_all2 same_group ?refs1 refs'"
    using u by (rule update_ref_same_group) (rule locked_update_same_group)
  with store_payload_refs_same_group[of "first_ref st" b ?enc]
  have "list_all2 same_group (first_ref st) refs'"
    by (rule list_all2_trans[rotated 1]) (rule same_group_trans)
  then show ?thesis by (simp add: st')
qed

lemma same_group_ok: "same_group g g' \<Longrightarrow> group_ok g \<Longrightarrow> group_ok g'"
proof -
  assume s: "same_group g g'" and o: "group_ok g"
  have l: "length (first_compressed_bitmap g') = length (first_compressed_bitmap g)"
    using s by (metis same_group_def length_map)
  have ne: "first_compressed_bitmap g' \<noteq> []" using l o by (auto simp: group_ok_def)
  have "bitmap_csn (last (first_compressed_bitmap g')) = last (map bitmap_csn (first_compressed_bitmap g'))"
    using ne by (simp add: last_map)
  also have "\<dots> = last (map bitmap_csn (first_compressed_bitmap g))" using s by (simp add: same_group_def)
  also have "\<dots> = bitmap_csn (last (first_compressed_bitmap g))" using o by (simp add: last_map group_ok_def)
  finally show ?thesis using s o l ne by (simp add: group_ok_def same_group_def)
qed

lemma list_all2_same_group_ok:
  "list_all2 same_group gs gs' \<Longrightarrow> list_all group_ok gs \<Longrightarrow> list_all group_ok gs'"
  by (induction rule: list_all2_induct) (auto intro: same_group_ok)

lemma step_controller_ok:
  assumes "step st st'" and "controller_ok st"
  shows "controller_ok st'"
  using assms
proof (cases rule: step.cases)
  case (step_insert_null new_csn original_bitmap handle ok handle')
  show ?thesis
  proof (cases "head_bitmap_cnt st = MAX_COMPRESS_NUM")
    case True
    with step_insert_null assms(2) show ?thesis
      by (auto simp: insert_null_def controller_ok_def group_ok_def Let_def MAX_COMPRESS_NUM_def)
  next
    case False
    with step_insert_null assms(2) show ?thesis
      by (auto simp: insert_null_def controller_ok_def group_ok_def Let_def MAX_COMPRESS_NUM_def
               split: list.splits)
  qed
next
  case (step_insert_bitmap_content ref bitmap original_bitmap ok)
  from insert_bitmap_content_same_group[OF this]
  have s: "list_all2 same_group (first_ref st) (first_ref st')" and h: "head_bitmap_cnt st' = head_bitmap_cnt st"
    by simp_all
  have a: "list_all group_ok (first_ref st')"
    using list_all2_same_group_ok[OF s] assms(2) by (simp add: controller_ok_def)
  show ?thesis
  proof (cases "first_ref st")
    case Nil
    with s assms(2) h show ?thesis by (simp add: controller_ok_def)
  next
    case (Cons g gs)
    with s obtain g' gs' where c': "first_ref st' = g' # gs'" and sg: "same_group g g'"
      by (auto simp: list_all2_Cons1)
    have "length (first_compressed_bitmap g') = length (first_compressed_bitmap g)"
      using sg by (metis same_group_def length_map)
    with a c' Cons assms(2) h show ?thesis by (simp add: controller_ok_def)
  qed
qed

lemma reachable_controller_ok: "reachable st \<Longrightarrow> controller_ok st"
proof (induction rule: reachable.induct)
  case reachable_init
  show ?case by (simp add: controller_ok_def BitmapController_init_def MAX_COMPRESS_NUM_def)
next
  case (reachable_step st st')
  then show ?case using step_controller_ok by blast
qed

subsection \<open>Runs of the client on sample images\<close>

text \<open>
  The sample images have a few leading bytes and zeros behind them, so the two passes
  of \<^verbatim>\<open>compress_bitmap\<close> and the sparse loop of \<^verbatim>\<open>decompress_bitmap\<close> reduce to the
  leading bytes.
\<close>

lemma image_of_bytes_Nil: "image_of_bytes [] = replicate BITMAP_SIZE 0"
  by (simp add: image_of_bytes_def)

lemma length_image_of_bytes:
  "length leading \<le> BITMAP_SIZE \<Longrightarrow> length (image_of_bytes leading) = BITMAP_SIZE"
  by (simp add: image_of_bytes_def)

lemma take_image_of_bytes:
  "length leading \<le> BITMAP_SIZE \<Longrightarrow> take BITMAP_SIZE (image_of_bytes leading) = image_of_bytes leading"
  by (simp add: length_image_of_bytes)

lemma fill_positions_append:
  "fill_positions i (xs @ ys) = fill_positions i xs @ fill_positions (i + length xs) ys"
  by (induction xs arbitrary: i) auto

lemma fill_positions_replicate_zero: "fill_positions i (replicate n 0) = []"
  by (induction n arbitrary: i) auto

lemma compress_bitmap_image:
  assumes "length leading \<le> BITMAP_SIZE"
  shows "compress_bitmap (image_of_bytes leading) (image_of_bytes []) =
           (if 468 \<le> count_bits leading 0 then (pack_pairs (image_of_bytes leading), False)
            else (of_int (count_bits leading 0) # fill_positions 0 leading, True))"
proof -
  have x: "xor_function (image_of_bytes leading) (image_of_bytes []) = image_of_bytes leading"
    unfolding image_of_bytes_Nil by (rule xor_function_zero) (rule length_image_of_bytes[OF assms])
  have c: "count_bits (image_of_bytes leading) 0 = count_bits leading 0"
    by (simp add: image_of_bytes_def count_bits_append count_bits_replicate_zero)
  have f: "fill_positions 0 (image_of_bytes leading) = fill_positions 0 leading"
    by (simp add: image_of_bytes_def fill_positions_append fill_positions_replicate_zero)
  show ?thesis
    by (simp add: compress_bitmap_def x c f BITMAP_SIZE_div_16 take_image_of_bytes[OF assms])
qed

lemma toggle_positions_image:
  assumes "list_all (\<lambda>p. unat p div 8 < length leading) ps"
  shows "toggle_positions ps (image_of_bytes leading) =
           (case toggle_positions ps leading of Inl f \<Rightarrow> Inl f | Inr r \<Rightarrow> Inr (image_of_bytes r))"
  using assms
proof (induction ps arbitrary: leading)
  case Nil
  show ?case by simp
next
  case (Cons p ps)
  let ?i = "unat p div 8"
  have i: "?i < length leading" using Cons.prems by simp
  have u: "(image_of_bytes leading)[?i := v] = image_of_bytes (leading[?i := v])" for v
    using i by (simp add: image_of_bytes_def list_update_append)
  have n: "image_of_bytes leading ! ?i = leading ! ?i"
    using i by (simp add: image_of_bytes_def nth_append)
  have l: "?i < length (image_of_bytes leading)" using i by (simp add: image_of_bytes_def)
  have "list_all (\<lambda>q. unat q div 8 < length (leading[?i := leading ! ?i XOR push_bit (7 - unat p mod 8) 1])) ps"
    using Cons.prems by simp
  from Cons.IH[OF this] show ?case using i l by (simp add: Let_def u n)
qed

lemma image_of_bytes_pad:
  "length leading + n \<le> BITMAP_SIZE \<Longrightarrow> image_of_bytes (leading @ replicate n 0) = image_of_bytes leading"
  by (simp add: image_of_bytes_def replicate_add[symmetric])

lemma decompress_bitmap_image:
  assumes "length out = BITMAP_SIZE" "length leading \<le> BITMAP_SIZE"
  shows "decompress_bitmap out (image_of_bytes leading) (Some (c # ps)) True =
           (if unat c \<le> length ps then toggle_positions (take (unat c) ps) (image_of_bytes leading)
            else Inl OutOfBounds)"
  using assms by (simp add: decompress_bitmap_def take_image_of_bytes)

lemma byte_bits_32: "byte_bits 32 = [2]"
  by (simp add: byte_bits_def upt_rec)

lemma byte_bits_8: "byte_bits 8 = [4]"
  by (simp add: byte_bits_def upt_rec)

lemma take_empty_image: "take BITMAP_SIZE (image_of_bytes []) = image_of_bytes []"
  by (simp add: take_image_of_bytes)

lemma compress_zero_image: "compress_bitmap (image_of_bytes []) (image_of_bytes []) = ([0], True)"
  by (simp add: compress_bitmap_image)

lemma compress_bit10_image: "compress_bitmap (image_of_bytes [0, 32]) (image_of_bytes []) = ([1, 10], True)"
  by (simp add: compress_bitmap_image BITMAP_SIZE_def byte_bits_32)

lemma compress_bit20_image: "compress_bitmap (image_of_bytes [0, 0, 8]) (image_of_bytes []) = ([1, 20], True)"
  by (simp add: compress_bitmap_image BITMAP_SIZE_def byte_bits_8)

lemma toggle_small: "toggle_positions [10, 20] [0, 0, 0] = Inr [0, 32, 8]"
  by code_simp

lemma decompress_bits_10_20:
  "decompress_bitmap (image_of_bytes []) (image_of_bytes []) (Some [2, 10, 20]) True
     = Inr (image_of_bytes [0, 32, 8])"
proof -
  have e: "image_of_bytes [] = image_of_bytes [0, 0, 0]"
    using image_of_bytes_pad[of "[]" 3] by (simp add: BITMAP_SIZE_def numeral_3_eq_3)
  have t: "toggle_positions [10, 20] (image_of_bytes [0, 0, 0]) = Inr (image_of_bytes [0, 32, 8])"
    by (subst toggle_positions_image) (simp_all add: toggle_small)
  have "decompress_bitmap (image_of_bytes []) (image_of_bytes [0, 0, 0]) (Some [2, 10, 20]) True
          = Inr (image_of_bytes [0, 32, 8])"
    by (subst decompress_bitmap_image)
       (simp_all add: t length_image_of_bytes BITMAP_SIZE_def del: toggle_positions.simps)
  then show ?thesis by (simp only: e[symmetric])
qed

lemmas scenario_simps =
  get_after_def groups_after_def BitmapController_init_def MAX_COMPRESS_NUM_def
  insert_null_def insert_bitmap_content_def locked_update_def store_payload_def
  store_payload_refs_def find_bitmap_def
  union_sorted_array_def get_bitmap_def Let_def take_empty_image
  compress_zero_image compress_bit10_image compress_bit20_image

lemma run_reachable:
  "reachable st \<Longrightarrow> run cs (hs, st) = Inr (hs', st') \<Longrightarrow> reachable st'"
proof (induction cs arbitrary: hs st)
  case Nil
  then show ?case by simp
next
  case (Cons c cs)
  show ?case
  proof (cases c)
    case (InsertNull new_csn B)
    with Cons.prems(2) obtain ok h st1 where
      i: "insert_null new_csn B (None, None) st = Inr (ok, h, st1)" and r: "run cs (hs @ [h], st1) = Inr (hs', st')"
      by (auto split: sum.splits)
    from i have "step st st1" by (rule step_insert_null)
    with Cons.prems(1) have "reachable st1" by (rule reachable_step)
    then show ?thesis using r by (rule Cons.IH)
  next
    case (InsertBitmapContent k B)
    with Cons.prems(2) obtain ok st1 where
      i: "insert_bitmap_content (fst (hs ! k)) (snd (hs ! k)) B st = Inr (ok, st1)" and r: "run cs (hs, st1) = Inr (hs', st')"
      by (auto split: sum.splits if_splits)
    from i have "step st st1" by (rule step_insert_bitmap_content)
    with Cons.prems(1) have "reachable st1" by (rule reachable_step)
    then show ?thesis using r by (rule Cons.IH)
  qed
qed


subsection \<open>The walk over the groups\<close>

lemma select_ref_chains:
  "select_ref (map (\<lambda>g. g\<lparr>first_compressed_bitmap := nodes_of g\<rparr>) gs) require_csn
     = map_option (\<lambda>g. g\<lparr>first_compressed_bitmap := nodes_of g\<rparr>) (select_ref gs require_csn)"
  by (induction gs) auto

lemma select_ref_advance:
  "list_all (\<lambda>x. require_csn < fst (csn_range x)) newer \<Longrightarrow>
     select_ref (newer @ rest) require_csn = select_ref rest require_csn"
  by (induction newer) auto

lemma take_bit10_image: "take BITMAP_SIZE (image_of_bytes [0, 32]) = image_of_bytes [0, 32]"
  by (rule take_image_of_bytes) (simp add: BITMAP_SIZE_def)

lemma take_bit20_image: "take BITMAP_SIZE (image_of_bytes [0, 0, 8]) = image_of_bytes [0, 0, 8]"
  by (rule take_image_of_bytes) (simp add: BITMAP_SIZE_def)

lemma decompress_opening_delta:
  "length leading \<le> BITMAP_SIZE \<Longrightarrow>
     decompress_bitmap (image_of_bytes []) (image_of_bytes leading) (Some [0]) True
       = Inr (image_of_bytes leading)"
  by (subst decompress_bitmap_image) (simp_all add: length_image_of_bytes)

lemma decompress_opening_bit10:
  "decompress_bitmap (image_of_bytes []) (image_of_bytes [0, 32]) (Some [0]) True
     = Inr (image_of_bytes [0, 32])"
  by (rule decompress_opening_delta) (simp add: BITMAP_SIZE_def)

lemma decompress_opening_bit20:
  "decompress_bitmap (image_of_bytes []) (image_of_bytes [0, 0, 8]) (Some [0]) True
     = Inr (image_of_bytes [0, 0, 8])"
  by (rule decompress_opening_delta) (simp add: BITMAP_SIZE_def)

text \<open>
  Claim C8. The walk of \<^verbatim>\<open>get_bitmap\<close> over the groups, newest first, is decided at
  every group \<open>g\<close> by the requested CSN alone. Below the \<open>lo\<close> of \<open>g\<close> it goes on with
  the older groups, and \<^verbatim>\<open>get_bitmap\<close> answers as it would on those alone. Not below
  \<open>lo\<close> but above \<open>hi\<close>, it returns false there and then, whatever the older groups
  are; in a reachable state \<open>lo\<close> is never above \<open>hi\<close>, so it does whenever the CSN is
  above \<open>hi\<close>. From \<open>lo\<close> to \<open>hi\<close>, the ends included, it stops at \<open>g\<close>, and the answer
  is the search of the chain of \<open>g\<close> against the reference of \<open>g\<close>. So a CSN below
  the \<open>lo\<close> of all the groups in front of \<open>g\<close> gets to \<open>g\<close>: it is answered from \<open>g\<close>
  when it is in the range of \<open>g\<close>, and by false, with no look at the groups behind,
  when it is above the \<open>hi\<close> of \<open>g\<close>. And a CSN below the \<open>lo\<close> of every group selects
  no group: \<^verbatim>\<open>get_bitmap\<close> returns false before it looks at any chain, leaves the
  buffer untouched, and does the same whatever the chains of the groups hold.
\<close>

theorem get_bitmap_group_walk:
  "select_ref [] require_csn = None \<and>
   (first_ref st = g # gs \<and> require_csn < fst (csn_range g) \<longrightarrow>
      select_ref (first_ref st) require_csn = select_ref gs require_csn \<and>
      get_bitmap st require_csn out = get_bitmap (st\<lparr>first_ref := gs\<rparr>) require_csn out) \<and>
   (first_ref st = g # gs \<and> fst (csn_range g) \<le> require_csn \<and> snd (csn_range g) < require_csn \<longrightarrow>
      select_ref (first_ref st) require_csn = None \<and>
      get_bitmap st require_csn out = Inr (False, out)) \<and>
   (reachable st \<and> first_ref st = g # gs \<and> snd (csn_range g) < require_csn \<longrightarrow>
      get_bitmap st require_csn out = Inr (False, out)) \<and>
   (first_ref st = g # gs \<and> fst (csn_range g) \<le> require_csn \<and> require_csn \<le> snd (csn_range g) \<longrightarrow>
      select_ref (first_ref st) require_csn = Some g \<and>
      get_bitmap st require_csn out
        = search_chain (complete_bitmap g) (first_compressed_bitmap g) require_csn out) \<and>
   (first_ref st = newer @ g # older \<and>
    list_all (\<lambda>x. require_csn < fst (csn_range x)) newer \<and>
    fst (csn_range g) \<le> require_csn \<and> require_csn \<le> snd (csn_range g) \<longrightarrow>
      select_ref (first_ref st) require_csn = Some g \<and>
      get_bitmap st require_csn out
        = search_chain (complete_bitmap g) (first_compressed_bitmap g) require_csn out) \<and>
   (first_ref st = newer @ g # older \<and>
    list_all (\<lambda>x. require_csn < fst (csn_range x)) newer \<and>
    fst (csn_range g) \<le> require_csn \<and> snd (csn_range g) < require_csn \<longrightarrow>
      select_ref (first_ref st) require_csn = None \<and>
      get_bitmap st require_csn out = Inr (False, out)) \<and>
   (list_all (\<lambda>g. require_csn < fst (csn_range g)) (first_ref st) \<longrightarrow>
      select_ref (first_ref st) require_csn = None \<and>
      get_bitmap st require_csn out = Inr (False, out) \<and>
      (\<forall>nodes_of.
         get_bitmap (st\<lparr>first_ref := map (\<lambda>g. g\<lparr>first_compressed_bitmap := nodes_of g\<rparr>) (first_ref st)\<rparr>)
           require_csn out = Inr (False, out)))"
proof (intro conjI impI)
  show "select_ref [] require_csn = None" by simp
next
  assume "first_ref st = g # gs \<and> require_csn < fst (csn_range g)"
  then show "select_ref (first_ref st) require_csn = select_ref gs require_csn"
    and "get_bitmap st require_csn out = get_bitmap (st\<lparr>first_ref := gs\<rparr>) require_csn out"
    by (simp_all add: get_bitmap_def)
next
  assume "first_ref st = g # gs \<and> fst (csn_range g) \<le> require_csn \<and> snd (csn_range g) < require_csn"
  then show "select_ref (first_ref st) require_csn = None"
    and "get_bitmap st require_csn out = Inr (False, out)"
    by (simp_all add: get_bitmap_def)
next
  assume a: "reachable st \<and> first_ref st = g # gs \<and> snd (csn_range g) < require_csn"
  then have "controller_ok st" by (simp add: reachable_controller_ok)
  with a have "fst (csn_range g) \<le> snd (csn_range g)"
    by (simp add: controller_ok_def group_ok_def)
  with a show "get_bitmap st require_csn out = Inr (False, out)"
    by (simp add: get_bitmap_def)
next
  assume "first_ref st = g # gs \<and> fst (csn_range g) \<le> require_csn \<and> require_csn \<le> snd (csn_range g)"
  then show "select_ref (first_ref st) require_csn = Some g"
    and "get_bitmap st require_csn out
        = search_chain (complete_bitmap g) (first_compressed_bitmap g) require_csn out"
    by (simp_all add: get_bitmap_def)
next
  assume a: "first_ref st = newer @ g # older \<and>
    list_all (\<lambda>x. require_csn < fst (csn_range x)) newer \<and>
    fst (csn_range g) \<le> require_csn \<and> require_csn \<le> snd (csn_range g)"
  then have "select_ref (first_ref st) require_csn = select_ref (g # older) require_csn"
    by (simp add: select_ref_advance)
  with a show s: "select_ref (first_ref st) require_csn = Some g" by simp
  then show "get_bitmap st require_csn out
        = search_chain (complete_bitmap g) (first_compressed_bitmap g) require_csn out"
    by (simp add: get_bitmap_def)
next
  assume a: "first_ref st = newer @ g # older \<and>
    list_all (\<lambda>x. require_csn < fst (csn_range x)) newer \<and>
    fst (csn_range g) \<le> require_csn \<and> snd (csn_range g) < require_csn"
  then have "select_ref (first_ref st) require_csn = select_ref (g # older) require_csn"
    by (simp add: select_ref_advance)
  with a show s: "select_ref (first_ref st) require_csn = None" by simp
  then show "get_bitmap st require_csn out = Inr (False, out)"
    by (simp add: get_bitmap_def)
next
  assume b: "list_all (\<lambda>g. require_csn < fst (csn_range g)) (first_ref st)"
  then show n: "select_ref (first_ref st) require_csn = None"
    by (rule select_ref_below_all)
  then show "get_bitmap st require_csn out = Inr (False, out)"
    by (simp add: get_bitmap_def)
  show "\<forall>nodes_of.
         get_bitmap (st\<lparr>first_ref := map (\<lambda>g. g\<lparr>first_compressed_bitmap := nodes_of g\<rparr>) (first_ref st)\<rparr>)
           require_csn out = Inr (False, out)"
    using n by (simp add: get_bitmap_def select_ref_chains)
qed

text \<open>
  The theorem at work on two groups. Ten calls of \<^verbatim>\<open>insert_null\<close> with the CSNs 0 to
  9: CSN 0 opens the older group with the image of bit 10, CSNs 1 to 8 are
  placeholders in it, and CSN 9 opens the head group with the image of bit 20. The
  ranges are \<open>(9, 9)\<close> in front and \<open>(0, 0)\<close> behind. A read of CSN 0 passes the head
  group and is answered from the older one with the image of bit 10; a read of CSN 9
  stops at the head group and gives the image of bit 20; a read of CSN 10 is false at
  the head group; a read of CSN 5 passes the head group and is false at the older
  one, above its \<open>hi\<close>; a read of CSN \<open>-1\<close> passes both and is false.
\<close>

theorem get_bitmap_group_walk_witness:
  "\<exists>hs st head_group older_group.
     run [InsertNull 0 (image_of_bytes [0, 32]), InsertNull 1 (image_of_bytes []),
          InsertNull 2 (image_of_bytes []), InsertNull 3 (image_of_bytes []),
          InsertNull 4 (image_of_bytes []), InsertNull 5 (image_of_bytes []),
          InsertNull 6 (image_of_bytes []), InsertNull 7 (image_of_bytes []),
          InsertNull 8 (image_of_bytes []), InsertNull 9 (image_of_bytes [0, 0, 8])]
       ([], BitmapController_init) = Inr (hs, st) \<and>
     reachable st \<and> first_ref st = head_group # [older_group] \<and>
     first_ref st = [head_group] @ older_group # [] \<and>
     csn_range head_group = (9, 9) \<and> csn_range older_group = (0, 0) \<and>
     list_all (\<lambda>x. 0 < fst (csn_range x)) [head_group] \<and>
     select_ref (first_ref st) 0 = Some older_group \<and>
     get_bitmap st 0 (image_of_bytes []) = get_bitmap (st\<lparr>first_ref := [older_group]\<rparr>) 0 (image_of_bytes []) \<and>
     get_bitmap st 0 (image_of_bytes []) = Inr (True, image_of_bytes [0, 32]) \<and>
     select_ref (first_ref st) 9 = Some head_group \<and>
     get_bitmap st 9 (image_of_bytes []) = Inr (True, image_of_bytes [0, 0, 8]) \<and>
     select_ref (first_ref st) 10 = None \<and>
     get_bitmap st 10 (image_of_bytes []) = Inr (False, image_of_bytes []) \<and>
     select_ref (first_ref st) 5 = None \<and>
     get_bitmap st 5 (image_of_bytes []) = Inr (False, image_of_bytes []) \<and>
     list_all (\<lambda>x. - 1 < fst (csn_range x)) (first_ref st) \<and>
     select_ref (first_ref st) (- 1) = None \<and>
     get_bitmap st (- 1) (image_of_bytes []) = Inr (False, image_of_bytes []) \<and>
     get_bitmap (st\<lparr>first_ref := map (\<lambda>g. g\<lparr>first_compressed_bitmap := []\<rparr>) (first_ref st)\<rparr>)
       (- 1) (image_of_bytes []) = Inr (False, image_of_bytes [])"
proof -
  let ?out = "image_of_bytes [] :: uint8_t list"
  have "\<exists>hs st hg og.
     run [InsertNull 0 (image_of_bytes [0, 32]), InsertNull 1 (image_of_bytes []),
          InsertNull 2 (image_of_bytes []), InsertNull 3 (image_of_bytes []),
          InsertNull 4 (image_of_bytes []), InsertNull 5 (image_of_bytes []),
          InsertNull 6 (image_of_bytes []), InsertNull 7 (image_of_bytes []),
          InsertNull 8 (image_of_bytes []), InsertNull 9 (image_of_bytes [0, 0, 8])]
       ([], BitmapController_init) = Inr (hs, st) \<and>
     first_ref st = hg # [og] \<and> csn_range hg = (9, 9) \<and> csn_range og = (0, 0) \<and>
     search_chain (complete_bitmap og) (first_compressed_bitmap og) 0 ?out
       = Inr (True, image_of_bytes [0, 32]) \<and>
     search_chain (complete_bitmap hg) (first_compressed_bitmap hg) 9 ?out
       = Inr (True, image_of_bytes [0, 0, 8])"
    by (simp add: scenario_simps take_bit10_image take_bit20_image
          decompress_opening_bit10 decompress_opening_bit20)
  then obtain hs st hg og where r: "run [InsertNull 0 (image_of_bytes [0, 32]), InsertNull 1 (image_of_bytes []),
          InsertNull 2 (image_of_bytes []), InsertNull 3 (image_of_bytes []),
          InsertNull 4 (image_of_bytes []), InsertNull 5 (image_of_bytes []),
          InsertNull 6 (image_of_bytes []), InsertNull 7 (image_of_bytes []),
          InsertNull 8 (image_of_bytes []), InsertNull 9 (image_of_bytes [0, 0, 8])]
       ([], BitmapController_init) = Inr (hs, st)"
    and f: "first_ref st = hg # [og]"
    and ch: "csn_range hg = (9, 9)" and co: "csn_range og = (0, 0)"
    and so: "search_chain (complete_bitmap og) (first_compressed_bitmap og) 0 ?out
               = Inr (True, image_of_bytes [0, 32])"
    and sh: "search_chain (complete_bitmap hg) (first_compressed_bitmap hg) 9 ?out
               = Inr (True, image_of_bytes [0, 0, 8])"
    by blast
  have f': "first_ref st = [hg] @ og # []" using f by simp
  have re: "reachable st" using reachable_init r by (rule run_reachable)
  have n0: "list_all (\<lambda>x. (0 :: int) < fst (csn_range x)) [hg]" using ch by simp
  have n5: "list_all (\<lambda>x. (5 :: int) < fst (csn_range x)) [hg]" using ch by simp
  have nm: "list_all (\<lambda>x. (- 1 :: int) < fst (csn_range x)) (first_ref st)" using f ch co by simp
  note w0 = get_bitmap_group_walk[where require_csn = 0 and st = st and g = hg and gs = "[og]" and out = ?out and newer = "[hg]" and older = "[]"]
  note w0' = get_bitmap_group_walk[where require_csn = 0 and st = st and g = og and gs = "[]" and out = ?out and newer = "[hg]" and older = "[]"]
  note w9 = get_bitmap_group_walk[where require_csn = 9 and st = st and g = hg and gs = "[og]" and out = ?out and newer = "[]" and older = "[og]"]
  note w10 = get_bitmap_group_walk[where require_csn = 10 and st = st and g = hg and gs = "[og]" and out = ?out and newer = "[]" and older = "[og]"]
  note w5 = get_bitmap_group_walk[where require_csn = 5 and st = st and g = og and gs = "[]" and out = ?out and newer = "[hg]" and older = "[]"]
  note wm = get_bitmap_group_walk[where require_csn = "- 1" and st = st and g = hg and gs = "[og]" and out = ?out and newer = "[hg]" and older = "[]"]
  have a0: "get_bitmap st 0 ?out = get_bitmap (st\<lparr>first_ref := [og]\<rparr>) 0 ?out"
    using w0 f ch by simp
  have b0: "select_ref (first_ref st) 0 = Some og"
    "get_bitmap st 0 ?out = search_chain (complete_bitmap og) (first_compressed_bitmap og) 0 ?out"
    using w0' f' n0 co by simp_all
  have c0: "get_bitmap st 0 ?out = Inr (True, image_of_bytes [0, 32])"
    using b0(2) so by simp
  have b9: "select_ref (first_ref st) 9 = Some hg"
    "get_bitmap st 9 ?out = search_chain (complete_bitmap hg) (first_compressed_bitmap hg) 9 ?out"
    using w9 f ch by simp_all
  have c9: "get_bitmap st 9 ?out = Inr (True, image_of_bytes [0, 0, 8])"
    using b9(2) sh by simp
  have b10: "select_ref (first_ref st) 10 = None" "get_bitmap st 10 ?out = Inr (False, ?out)"
    using w10 re f ch by simp_all
  have b5: "select_ref (first_ref st) 5 = None" "get_bitmap st 5 ?out = Inr (False, ?out)"
    using w5 f' n5 co by simp_all
  have bm: "select_ref (first_ref st) (- 1) = None" "get_bitmap st (- 1) ?out = Inr (False, ?out)"
    and every: "\<forall>nodes_of.
      get_bitmap (st\<lparr>first_ref := map (\<lambda>g. g\<lparr>first_compressed_bitmap := nodes_of g\<rparr>) (first_ref st)\<rparr>)
        (- 1) ?out = Inr (False, ?out)"
    using wm nm by blast+
  note em = every[THEN spec, of "\<lambda>_. []"]
  show ?thesis
    by (intro exI[of _ hs] exI[of _ st] exI[of _ hg] exI[of _ og] conjI
          r re f f' ch co n0 b0(1) a0 c0 b9(1) c9 b10 b5 nm bm em)
qed

subsection \<open>The group cap\<close>

text \<open>
  Claim C6. In every state that calls of \<^verbatim>\<open>insert_null\<close> and
  \<^verbatim>\<open>insert_bitmap_content\<close>, run one after the other from the constructor, can reach,
  no group has more than \<^verbatim>\<open>MAX_COMPRESS_NUM\<close> = 9 nodes, and the head group has
  \<^verbatim>\<open>head_bitmap_cnt\<close> of them. When that count is at the cap, the next
  \<^verbatim>\<open>insert_null\<close> pushes a new group in front of the unchanged groups: its reference
  is the image passed in, its range is the new CSN, and its one node carries the new
  CSN with the empty sparse payload; the caller's pointer variables are left alone.
  Below the cap, where the head group has fewer than 9 nodes, \<^verbatim>\<open>insert_null\<close> puts a
  placeholder in front of the chain of the head group and hands the pair out.
\<close>

theorem group_size_cap:
  assumes "reachable st"
  shows "list_all (\<lambda>g. int (length (first_compressed_bitmap g)) \<le> MAX_COMPRESS_NUM) (first_ref st) \<and>
         MAX_COMPRESS_NUM = 9 \<and>
         (first_ref st \<noteq> [] \<longrightarrow>
            int (length (first_compressed_bitmap (hd (first_ref st)))) = head_bitmap_cnt st) \<and>
         (head_bitmap_cnt st = MAX_COMPRESS_NUM \<longrightarrow>
            (\<exists>new. insert_null new_csn original_bitmap handle st
                     = Inr (True, handle,
                            st\<lparr>first_ref := new # first_ref st, head_bitmap_cnt := 1,
                               next_addr := next_addr st + 2\<rparr>) \<and>
                   complete_bitmap new = take BITMAP_SIZE original_bitmap \<and>
                   csn_range new = (new_csn, new_csn) \<and>
                   map bitmap_csn (first_compressed_bitmap new) = [new_csn] \<and>
                   map compressed_bitmap (first_compressed_bitmap new) = [Some [0]])) \<and>
         (head_bitmap_cnt st \<noteq> MAX_COMPRESS_NUM \<longrightarrow>
            (\<exists>g older placeholder.
               first_ref st = g # older \<and>
               insert_null new_csn original_bitmap handle st
                 = Inr (True, (Some (ref_addr g), Some (bitmap_addr placeholder)),
                        st\<lparr>first_ref :=
                             g\<lparr>first_compressed_bitmap := placeholder # first_compressed_bitmap g\<rparr> # older,
                           head_bitmap_cnt := head_bitmap_cnt st + 1,
                           next_addr := next_addr st + 1\<rparr>) \<and>
               bitmap_csn placeholder = new_csn \<and> compressed_bitmap placeholder = None \<and>
               int (length (first_compressed_bitmap g)) < MAX_COMPRESS_NUM))"
proof -
  have ok: "controller_ok st" using assms by (rule reachable_controller_ok)
  then have a: "list_all (\<lambda>g. int (length (first_compressed_bitmap g)) \<le> MAX_COMPRESS_NUM) (first_ref st)"
    by (auto simp: controller_ok_def group_ok_def list_all_iff)
  have b: "first_ref st \<noteq> [] \<longrightarrow>
            int (length (first_compressed_bitmap (hd (first_ref st)))) = head_bitmap_cnt st"
    using ok by (auto simp: controller_ok_def split: list.splits)
  let ?new = "\<lparr>ref_addr = next_addr st, bitmap_cnt = 1, csn_range = (new_csn, new_csn),
               complete_bitmap = take BITMAP_SIZE original_bitmap,
               first_compressed_bitmap =
                 [\<lparr>bitmap_addr = next_addr st + 1, bitmap_csn = new_csn,
                   compressed_bitmap = Some [0], is_compressed = True\<rparr>]\<rparr>"
  have c: "head_bitmap_cnt st = MAX_COMPRESS_NUM \<longrightarrow>
            (\<exists>new. insert_null new_csn original_bitmap handle st
                     = Inr (True, handle,
                            st\<lparr>first_ref := new # first_ref st, head_bitmap_cnt := 1,
                               next_addr := next_addr st + 2\<rparr>) \<and>
                   complete_bitmap new = take BITMAP_SIZE original_bitmap \<and>
                   csn_range new = (new_csn, new_csn) \<and>
                   map bitmap_csn (first_compressed_bitmap new) = [new_csn] \<and>
                   map compressed_bitmap (first_compressed_bitmap new) = [Some [0]])"
    by (intro impI exI[of _ ?new]) (simp add: insert_null_def Let_def)
  have d: "head_bitmap_cnt st \<noteq> MAX_COMPRESS_NUM \<longrightarrow>
            (\<exists>g older placeholder.
               first_ref st = g # older \<and>
               insert_null new_csn original_bitmap handle st
                 = Inr (True, (Some (ref_addr g), Some (bitmap_addr placeholder)),
                        st\<lparr>first_ref :=
                             g\<lparr>first_compressed_bitmap := placeholder # first_compressed_bitmap g\<rparr> # older,
                           head_bitmap_cnt := head_bitmap_cnt st + 1,
                           next_addr := next_addr st + 1\<rparr>) \<and>
               bitmap_csn placeholder = new_csn \<and> compressed_bitmap placeholder = None \<and>
               int (length (first_compressed_bitmap g)) < MAX_COMPRESS_NUM)"
  proof
    assume ne: "head_bitmap_cnt st \<noteq> MAX_COMPRESS_NUM"
    with ok obtain g older where f: "first_ref st = g # older"
      by (cases "first_ref st") (auto simp: controller_ok_def)
    let ?ph = "\<lparr>bitmap_addr = next_addr st, bitmap_csn = new_csn,
                compressed_bitmap = None, is_compressed = False\<rparr>"
    have "int (length (first_compressed_bitmap g)) < MAX_COMPRESS_NUM"
      using ok f ne by (auto simp: controller_ok_def group_ok_def)
    then show "\<exists>g older placeholder.
               first_ref st = g # older \<and>
               insert_null new_csn original_bitmap handle st
                 = Inr (True, (Some (ref_addr g), Some (bitmap_addr placeholder)),
                        st\<lparr>first_ref :=
                             g\<lparr>first_compressed_bitmap := placeholder # first_compressed_bitmap g\<rparr> # older,
                           head_bitmap_cnt := head_bitmap_cnt st + 1,
                           next_addr := next_addr st + 1\<rparr>) \<and>
               bitmap_csn placeholder = new_csn \<and> compressed_bitmap placeholder = None \<and>
               int (length (first_compressed_bitmap g)) < MAX_COMPRESS_NUM"
      using ne f by (intro exI[of _ g] exI[of _ older] exI[of _ ?ph]) (simp add: insert_null_def Let_def)
  qed
  have e: "MAX_COMPRESS_NUM = 9" by (simp add: MAX_COMPRESS_NUM_def)
  show ?thesis by (intro conjI a b c d e)
qed

theorem group_size_cap_witness:
  "(\<exists>hs st new.
     run (map (\<lambda>c. InsertNull c (image_of_bytes [])) [0, 1, 2, 3, 4, 5, 6, 7, 8])
       ([], BitmapController_init) = Inr (hs, st) \<and>
     reachable st \<and> first_ref st \<noteq> [] \<and> head_bitmap_cnt st = MAX_COMPRESS_NUM \<and>
     list_all (\<lambda>g. int (length (first_compressed_bitmap g)) \<le> MAX_COMPRESS_NUM) (first_ref st) \<and>
     int (length (first_compressed_bitmap (hd (first_ref st)))) = 9 \<and>
     insert_null 9 (image_of_bytes [0, 32]) (None, None) st
       = Inr (True, (None, None),
              st\<lparr>first_ref := new # first_ref st, head_bitmap_cnt := 1, next_addr := next_addr st + 2\<rparr>) \<and>
     complete_bitmap new = take BITMAP_SIZE (image_of_bytes [0, 32]) \<and>
     map bitmap_csn (first_compressed_bitmap new) = [9]) \<and>
   (\<exists>hs st g placeholder.
     run [InsertNull 0 (image_of_bytes [])] ([], BitmapController_init) = Inr (hs, st) \<and>
     reachable st \<and> head_bitmap_cnt st \<noteq> MAX_COMPRESS_NUM \<and> first_ref st = g # [] \<and>
     insert_null 1 (image_of_bytes [0, 32]) (None, None) st
       = Inr (True, (Some (ref_addr g), Some (bitmap_addr placeholder)),
              st\<lparr>first_ref := g\<lparr>first_compressed_bitmap := placeholder # first_compressed_bitmap g\<rparr> # [],
                 head_bitmap_cnt := head_bitmap_cnt st + 1, next_addr := next_addr st + 1\<rparr>) \<and>
     bitmap_csn placeholder = 1 \<and> compressed_bitmap placeholder = None)"
proof (rule conjI)
  obtain hs st where r: "run (map (\<lambda>c. InsertNull c (image_of_bytes [])) [0, 1, 2, 3, 4, 5, 6, 7, 8])
       ([], BitmapController_init) = Inr (hs, st)"
    and f: "first_ref st \<noteq> []" and h: "head_bitmap_cnt st = MAX_COMPRESS_NUM"
    by (simp add: scenario_simps)
  have re: "reachable st" using reachable_init r by (rule run_reachable)
  from group_size_cap[OF re, of 9 "image_of_bytes [0, 32]" "(None, None)"] f h r re
  show "\<exists>hs st new.
     run (map (\<lambda>c. InsertNull c (image_of_bytes [])) [0, 1, 2, 3, 4, 5, 6, 7, 8])
       ([], BitmapController_init) = Inr (hs, st) \<and>
     reachable st \<and> first_ref st \<noteq> [] \<and> head_bitmap_cnt st = MAX_COMPRESS_NUM \<and>
     list_all (\<lambda>g. int (length (first_compressed_bitmap g)) \<le> MAX_COMPRESS_NUM) (first_ref st) \<and>
     int (length (first_compressed_bitmap (hd (first_ref st)))) = 9 \<and>
     insert_null 9 (image_of_bytes [0, 32]) (None, None) st
       = Inr (True, (None, None),
              st\<lparr>first_ref := new # first_ref st, head_bitmap_cnt := 1, next_addr := next_addr st + 2\<rparr>) \<and>
     complete_bitmap new = take BITMAP_SIZE (image_of_bytes [0, 32]) \<and>
     map bitmap_csn (first_compressed_bitmap new) = [9]"
    by (auto simp: MAX_COMPRESS_NUM_def)
next
  obtain hs st where r: "run [InsertNull 0 (image_of_bytes [])] ([], BitmapController_init) = Inr (hs, st)"
    and h: "head_bitmap_cnt st \<noteq> MAX_COMPRESS_NUM" and l: "length (first_ref st) = 1"
    by (simp add: scenario_simps)
  have re: "reachable st" using reachable_init r by (rule run_reachable)
  from group_size_cap[OF re, of 1 "image_of_bytes [0, 32]" "(None, None)"] h
  obtain g older placeholder where
    f: "first_ref st = g # older"
    and i: "insert_null 1 (image_of_bytes [0, 32]) (None, None) st
       = Inr (True, (Some (ref_addr g), Some (bitmap_addr placeholder)),
              st\<lparr>first_ref := g\<lparr>first_compressed_bitmap := placeholder # first_compressed_bitmap g\<rparr> # older,
                 head_bitmap_cnt := head_bitmap_cnt st + 1, next_addr := next_addr st + 1\<rparr>)"
    and p: "bitmap_csn placeholder = 1" "compressed_bitmap placeholder = None"
    by blast
  have o: "older = []" using f l by simp
  show "\<exists>hs st g placeholder.
     run [InsertNull 0 (image_of_bytes [])] ([], BitmapController_init) = Inr (hs, st) \<and>
     reachable st \<and> head_bitmap_cnt st \<noteq> MAX_COMPRESS_NUM \<and> first_ref st = g # [] \<and>
     insert_null 1 (image_of_bytes [0, 32]) (None, None) st
       = Inr (True, (Some (ref_addr g), Some (bitmap_addr placeholder)),
              st\<lparr>first_ref := g\<lparr>first_compressed_bitmap := placeholder # first_compressed_bitmap g\<rparr> # [],
                 head_bitmap_cnt := head_bitmap_cnt st + 1, next_addr := next_addr st + 1\<rparr>) \<and>
     bitmap_csn placeholder = 1 \<and> compressed_bitmap placeholder = None"
    using r re h f[unfolded o] i[unfolded o] p
    by (intro exI[of _ hs] exI[of _ st] exI[of _ g] exI[of _ placeholder] conjI)
qed

subsection \<open>The CSN range of a group\<close>

lemma same_group_range_kept: "same_group g g' \<Longrightarrow> range_kept g g'"
proof -
  assume s: "same_group g g'"
  then have m: "map bitmap_addr (first_compressed_bitmap g') = map bitmap_addr (first_compressed_bitmap g)"
    by (simp add: same_group_def)
  have "bitmap_addr (last (first_compressed_bitmap g')) = bitmap_addr (last (first_compressed_bitmap g))"
  proof (cases "first_compressed_bitmap g = []")
    case True
    with m show ?thesis by simp
  next
    case False
    moreover from False m have "first_compressed_bitmap g' \<noteq> []" by auto
    ultimately show ?thesis using m by (metis last_map)
  qed
  with s show ?thesis by (simp add: same_group_def range_kept_def)
qed

lemma range_kept_refl: "range_kept g g"
  by (simp add: range_kept_def)

lemma range_kept_trans: "range_kept a b \<Longrightarrow> range_kept b c \<Longrightarrow> range_kept a c"
  by (auto simp: range_kept_def)

lemma step_range_kept:
  assumes "controller_ok st" and "step st st'"
  shows "\<exists>newer kept. first_ref st' = newer @ kept \<and> list_all2 range_kept (first_ref st) kept"
  using assms(2)
proof (cases rule: step.cases)
  case (step_insert_null new_csn original_bitmap handle ok handle')
  show ?thesis
  proof (cases "head_bitmap_cnt st = MAX_COMPRESS_NUM")
    case True
    with step_insert_null obtain new where "first_ref st' = [new] @ first_ref st"
      by (auto simp: insert_null_def Let_def)
    moreover have "list_all2 range_kept (first_ref st) (first_ref st)"
      by (simp add: list_all2_refl range_kept_refl)
    ultimately show ?thesis by blast
  next
    case False
    with step_insert_null obtain g older n where
      f: "first_ref st = g # older"
      and f': "first_ref st' = g\<lparr>first_compressed_bitmap := n # first_compressed_bitmap g\<rparr> # older"
      by (auto simp: insert_null_def Let_def split: list.splits)
    have "first_compressed_bitmap g \<noteq> []"
      using assms(1) f by (simp add: controller_ok_def group_ok_def)
    then have "range_kept g (g\<lparr>first_compressed_bitmap := n # first_compressed_bitmap g\<rparr>)"
      by (simp add: range_kept_def)
    moreover have "list_all2 range_kept older older"
      by (simp add: list_all2_refl range_kept_refl)
    ultimately have "list_all2 range_kept (first_ref st) (first_ref st')"
      by (simp add: f f')
    then show ?thesis by (intro exI[of _ "[]"] exI[of _ "first_ref st'"]) simp
  qed
next
  case (step_insert_bitmap_content ref bitmap original_bitmap ok)
  from insert_bitmap_content_same_group[OF this]
  have "list_all2 same_group (first_ref st) (first_ref st')" by simp
  then have "list_all2 range_kept (first_ref st) (first_ref st')"
    by (rule list_all2_mono) (rule same_group_range_kept)
  then show ?thesis by (intro exI[of _ "[]"] exI[of _ "first_ref st'"]) simp
qed

lemma steps_reachable: "step\<^sup>*\<^sup>* st st' \<Longrightarrow> reachable st \<Longrightarrow> reachable st'"
  by (induction rule: rtranclp_induct) (auto intro: reachable_step)

lemma steps_range_kept:
  assumes "step\<^sup>*\<^sup>* st st'" and "reachable st"
  shows "\<exists>newer kept. first_ref st' = newer @ kept \<and> list_all2 range_kept (first_ref st) kept"
  using assms
proof (induction rule: rtranclp_induct)
  case base
  have "list_all2 range_kept (first_ref st) (first_ref st)"
    by (simp add: list_all2_refl range_kept_refl)
  then show ?case by (intro exI[of _ "[]"] exI[of _ "first_ref st"]) simp
next
  case (step y z)
  then obtain newer kept where k: "first_ref y = newer @ kept" "list_all2 range_kept (first_ref st) kept"
    by blast
  have "reachable y" using step.hyps(1) step.prems by (rule steps_reachable)
  then have "controller_ok y" by (rule reachable_controller_ok)
  from step_range_kept[OF this step.hyps(2)] obtain newer' kept' where
    k': "first_ref z = newer' @ kept'" "list_all2 range_kept (first_ref y) kept'"
    by blast
  from k'(2) k(1) obtain us vs where uv: "kept' = us @ vs" "list_all2 range_kept newer us" "list_all2 range_kept kept vs"
    by (auto simp: list_all2_append1)
  have "list_all2 range_kept (first_ref st) vs"
    using k(2) uv(3) by (rule list_all2_trans[rotated]) (rule range_kept_trans)
  moreover have "first_ref z = (newer' @ us) @ vs" using k'(1) uv(1) by simp
  ultimately show ?case by blast
qed

text \<open>
  Claim C9. Over any number of calls from a reachable state, every group that was
  there is still there, behind the groups opened since, with the same address, the
  same \<open>lo\<close>, the same oldest node and an \<open>hi\<close> that is no smaller; and the \<open>lo\<close> of
  every group is the CSN of its oldest node, the one it was created with.
\<close>

theorem csn_range_lo_fixed_hi_monotone:
  assumes "reachable st" and "step\<^sup>*\<^sup>* st st'"
  shows "\<exists>newer kept.
           first_ref st' = newer @ kept \<and> list_all2 range_kept (first_ref st) kept \<and>
           list_all (\<lambda>g. first_compressed_bitmap g \<noteq> [] \<and>
                        fst (csn_range g) = bitmap_csn (last (first_compressed_bitmap g)))
             (first_ref st')"
proof -
  have "reachable st'" using assms(2,1) by (rule steps_reachable)
  then have "controller_ok st'" by (rule reachable_controller_ok)
  then have "list_all (\<lambda>g. first_compressed_bitmap g \<noteq> [] \<and>
                        fst (csn_range g) = bitmap_csn (last (first_compressed_bitmap g)))
             (first_ref st')"
    by (auto simp: controller_ok_def group_ok_def list_all_iff)
  with steps_range_kept[OF assms(2,1)] show ?thesis by blast
qed

theorem csn_range_lo_fixed_hi_monotone_witness:
  "\<exists>hs st st'.
     run [InsertNull 0 (image_of_bytes []), InsertNull 1 (image_of_bytes [0, 32])]
       ([], BitmapController_init) = Inr (hs, st) \<and>
     insert_bitmap_content (fst (hs ! 1)) (snd (hs ! 1)) (image_of_bytes [0, 32]) st = Inr (True, st') \<and>
     reachable st \<and> step\<^sup>*\<^sup>* st st' \<and>
     map csn_range (first_ref st) = [(0, 0)] \<and> map csn_range (first_ref st') = [(0, 1)] \<and>
     (\<exists>newer kept.
        first_ref st' = newer @ kept \<and> list_all2 range_kept (first_ref st) kept \<and>
        list_all (\<lambda>g. first_compressed_bitmap g \<noteq> [] \<and>
                     fst (csn_range g) = bitmap_csn (last (first_compressed_bitmap g)))
          (first_ref st'))"
proof -
  obtain hs st where r: "run [InsertNull 0 (image_of_bytes []), InsertNull 1 (image_of_bytes [0, 32])]
       ([], BitmapController_init) = Inr (hs, st)"
    and h: "hs ! 1 = (Some 0, Some 2)"
    and c: "map csn_range (first_ref st) = [(0, 0)]"
    and s: "st = \<lparr>first_ref =
                 [\<lparr>ref_addr = 0, bitmap_cnt = 1, csn_range = (0, 0),
                   complete_bitmap = image_of_bytes [],
                   first_compressed_bitmap =
                     [\<lparr>bitmap_addr = 2, bitmap_csn = 1, compressed_bitmap = None, is_compressed = False\<rparr>,
                      \<lparr>bitmap_addr = 1, bitmap_csn = 0, compressed_bitmap = Some [0], is_compressed = True\<rparr>]\<rparr>],
               head_bitmap_cnt = 2, next_addr = 3\<rparr>"
    by (simp add: scenario_simps)
  obtain st' where i: "insert_bitmap_content (fst (hs ! 1)) (snd (hs ! 1)) (image_of_bytes [0, 32]) st = Inr (True, st')"
    and c': "map csn_range (first_ref st') = [(0, 1)]"
    unfolding h s by (simp add: scenario_simps)
  have re: "reachable st" using reachable_init r by (rule run_reachable)
  have "step st st'" using i by (rule step_insert_bitmap_content)
  then have st: "step\<^sup>*\<^sup>* st st'" by (rule r_into_rtranclp)
  note concl = csn_range_lo_fixed_hi_monotone[OF re st]
  show ?thesis
    by (intro exI[of _ hs] exI[of _ st] exI[of _ st'] conjI r i re st c c' concl)
qed

lemma update_ref_split:
  assumes "\<forall>x\<in>set gs1. ref_addr x \<noteq> r" and "ref_addr g = r"
  shows "update_ref r f (gs1 @ g # gs2) = (case f g of Inl e \<Rightarrow> Inl e | Inr g' \<Rightarrow> Inr (gs1 @ g' # gs2))"
  using assms by (induction gs1) (auto split: sum.splits)

lemma scan_chain_split:
  assumes "\<forall>n\<in>set pre. bitmap_addr n \<noteq> b" and "bitmap_addr p = b"
  shows "scan_chain (pre @ p # post) b acc =
           (if pre = [] then acc
            else if compressed_bitmap (last pre) = None then (- 1, None)
            else (bitmap_csn (last pre), Some (bitmap_addr (last pre))))"
  using assms by (induction pre arbitrary: acc) auto

lemma store_payload_split:
  assumes "\<forall>n\<in>set pre. bitmap_addr n \<noteq> b" and "bitmap_addr p = b"
  shows "store_payload b enc (pre @ p # post) =
           pre @ p\<lparr>compressed_bitmap := Some (fst enc), is_compressed := snd enc\<rparr> # store_payload b enc post"
  using assms by (simp add: store_payload_def map_idI)

lemma find_split:
  assumes "\<forall>n\<in>set pre. \<not> P n" and "P p"
  shows "find P (pre @ p # post) = Some p"
  using assms by (induction pre) auto

lemma find_bitmap_split:
  assumes "\<forall>x\<in>set gs1. \<forall>n\<in>set (first_compressed_bitmap x). bitmap_addr n \<noteq> b"
    and "first_compressed_bitmap g = pre @ p # post"
    and "\<forall>n\<in>set pre. bitmap_addr n \<noteq> b" and "bitmap_addr p = b"
  shows "find_bitmap b (gs1 @ g # gs2) = Some p"
proof -
  have "concat (map first_compressed_bitmap (gs1 @ g # gs2))
          = (concat (map first_compressed_bitmap gs1) @ pre) @ p
              # (post @ concat (map first_compressed_bitmap gs2))"
    by (simp add: assms(2))
  moreover have "\<forall>n\<in>set (concat (map first_compressed_bitmap gs1) @ pre). \<not> bitmap_addr n = b"
    using assms(1,3) by auto
  ultimately show ?thesis
    unfolding find_bitmap_def using assms(4) by (simp only: find_split)
qed

lemma update_ref_map_split:
  assumes "\<forall>x\<in>set gs1. ref_addr x \<noteq> r" and "ref_addr g = r"
    and "\<And>x. ref_addr (h x) = ref_addr x"
  shows "update_ref r f (map h (gs1 @ g # gs2)) =
           (case f (h g) of Inl e \<Rightarrow> Inl e | Inr g' \<Rightarrow> Inr (map h gs1 @ g' # map h gs2))"
proof -
  have "\<forall>x\<in>set (map h gs1). ref_addr x \<noteq> r" using assms(1,3) by auto
  moreover have "ref_addr (h g) = r" using assms(2,3) by simp
  ultimately show ?thesis
    using update_ref_split[of "map h gs1" r "h g" f "map h gs2"] by simp
qed

lemma locked_update_hi:
  assumes "first_compressed_bitmap g = pre @ p # post"
    and "\<forall>n\<in>set pre. bitmap_addr n \<noteq> b" and "bitmap_addr p = b"
    and "locked_update b c payload g = Inr g'"
  shows "csn_range g' =
           (fst (csn_range g),
            max (snd (csn_range g))
              (if pre = [] \<or> compressed_bitmap (last pre) = None \<or> bitmap_csn (last pre) = - 1
               then c else bitmap_csn (last pre)))"
proof -
  have sc: "scan_chain (first_compressed_bitmap g) b (- 1, None) =
           (if pre = [] then (- 1, None)
            else if compressed_bitmap (last pre) = None then (- 1, None)
            else (bitmap_csn (last pre), Some (bitmap_addr (last pre))))"
    unfolding assms(1) using assms(2,3) by (intro scan_chain_split) auto
  show ?thesis
    using assms(4)
    by (auto simp: locked_update_def sc Let_def split: sum.splits if_splits)
qed

text \<open>
  What a call does to the ranges. Let \<open>p\<close> be the node \<^verbatim>\<open>insert_bitmap_content\<close> is
  called on, in the chain of its group \<open>g\<close>, \<open>pre\<close> the nodes in front of it (the newer
  ones) and \<open>post\<close> the nodes behind it. The scan of the chain starts at the head and
  ends at \<open>p\<close>, and every node it passes overwrites what the node before left: so
  only the node just in front of \<open>p\<close> counts, and the nodes behind \<open>p\<close> are never
  looked at.
\<close>

lemma insert_bitmap_content_range:
  assumes "first_ref st = gs1 @ g # gs2"
    and "\<forall>x\<in>set gs1. ref_addr x \<noteq> r" and "ref_addr g = r"
    and "\<forall>x\<in>set gs1. \<forall>n\<in>set (first_compressed_bitmap x). bitmap_addr n \<noteq> b"
    and "first_compressed_bitmap g = pre @ p # post"
    and "\<forall>n\<in>set pre. bitmap_addr n \<noteq> b" and "bitmap_addr p = b"
    and "insert_bitmap_content (Some r) (Some b) B st = Inr (ok, st')"
  shows "map csn_range (first_ref st') =
           map csn_range gs1 @
           (fst (csn_range g),
            max (snd (csn_range g))
              (if pre = [] \<or> compressed_bitmap (last pre) = None \<or> bitmap_csn (last pre) = - 1
               then bitmap_csn p else bitmap_csn (last pre)))
           # map csn_range gs2"
proof -
  let ?enc = "compress_bitmap B (complete_bitmap g)"
  let ?h = "\<lambda>x. x\<lparr>first_compressed_bitmap := store_payload b ?enc (first_compressed_bitmap x)\<rparr>"
  let ?p' = "p\<lparr>compressed_bitmap := Some (fst ?enc), is_compressed := snd ?enc\<rparr>"
  have fg: "find (\<lambda>x. ref_addr x = r) (first_ref st) = Some g"
    unfolding assms(1) using assms(2,3) by (intro find_split) auto
  have fb: "find_bitmap b (first_ref st) = Some p"
    unfolding assms(1) using assms(4,5,6,7) by (rule find_bitmap_split)
  have refs1: "store_payload_refs b ?enc (first_ref st) = map ?h (gs1 @ g # gs2)"
    by (simp add: store_payload_refs_def assms(1))
  from assms(8) obtain refs' where
    u: "update_ref r (locked_update b (bitmap_csn p) (fst ?enc)) (map ?h (gs1 @ g # gs2)) = Inr refs'"
    and st': "st' = st\<lparr>first_ref := refs'\<rparr>"
    by (auto simp: insert_bitmap_content_def fg fb refs1 Let_def split: sum.splits)
  from u obtain g' where m: "locked_update b (bitmap_csn p) (fst ?enc) (?h g) = Inr g'"
    and r: "refs' = map ?h gs1 @ g' # map ?h gs2"
    using update_ref_map_split[of gs1 r g ?h "locked_update b (bitmap_csn p) (fst ?enc)" gs2]
      assms(2,3)
    by (auto split: sum.splits)
  have ch: "first_compressed_bitmap (?h g) = pre @ ?p' # store_payload b ?enc post"
    using store_payload_split[OF assms(6,7), of ?enc post] by (simp add: assms(5))
  have pa: "bitmap_addr ?p' = b" using assms(7) by simp
  from locked_update_hi[OF ch assms(6) pa m]
  have "csn_range g' =
           (fst (csn_range g),
            max (snd (csn_range g))
              (if pre = [] \<or> compressed_bitmap (last pre) = None \<or> bitmap_csn (last pre) = - 1
               then bitmap_csn p else bitmap_csn (last pre)))"
    by simp
  then show ?thesis by (simp add: st' r comp_def)
qed



subsection \<open>Reads that go wrong\<close>

lemma search_chain_placeholder:
  assumes "\<forall>n\<in>set pre. bitmap_csn n \<noteq> require_csn"
    and "bitmap_csn p = require_csn" and "compressed_bitmap p = None"
  shows "search_chain reference (pre @ p # post) require_csn out = Inl NullPointer"
  using assms by (induction pre) (auto simp: decompress_bitmap_def)

text \<open>
  Claim C4 at a failing input. CSN 0 opens a group, placeholders for CSN 1 and CSN 2
  are pushed, and the placeholder of CSN 2 is filled first, which makes the range of
  the group \<open>(0, 2)\<close>. Then \<^verbatim>\<open>get_bitmap(1, out)\<close> selects the group, passes the node
  of CSN 2 and reaches the placeholder of CSN 1: it calls \<^verbatim>\<open>decompress_bitmap\<close> with
  the null payload, which reads through it. It does not return false.
\<close>

theorem get_bitmap_reaches_placeholder:
  "get_after
     [InsertNull 0 (image_of_bytes []), InsertNull 1 (image_of_bytes [0, 32]),
      InsertNull 2 (image_of_bytes [0, 0, 8]), InsertBitmapContent 2 (image_of_bytes [0, 0, 8])]
     1 (image_of_bytes [])
   = Inl NullPointer"
  by (simp add: scenario_simps decompress_bitmap_def)

lemma compress_zero_against_ones:
  "compress_bitmap (image_of_bytes []) (replicate BITMAP_SIZE 255)
     = (pack_pairs (image_of_bytes []), False)"
proof -
  let ?B = "replicate BITMAP_SIZE 0 :: uint8_t list"
  let ?R = "replicate BITMAP_SIZE 255 :: uint8_t list"
  have x: "xor_function ?B ?R = ?R" by (simp add: xor_function_def)
  have c: "count_bits ?R 0 = 60000"
    by (simp add: count_bits_replicate byte_bits_255) (simp add: BITMAP_SIZE_def)
  show ?thesis
    by (simp add: image_of_bytes_Nil compress_bitmap_def x c BITMAP_SIZE_div_16)
qed

lemma decompress_zero_against_ones:
  "decompress_bitmap (image_of_bytes []) (replicate BITMAP_SIZE 255)
     (Some (pack_pairs (image_of_bytes []))) False = Inr (replicate BITMAP_SIZE 255)"
proof -
  have "decompress_bitmap (image_of_bytes []) (replicate BITMAP_SIZE 255)
     (Some (pack_pairs (image_of_bytes []))) False
      = Inr (map2 (XOR) (replicate BITMAP_SIZE 255) (image_of_bytes []))"
    by (rule decompress_bitmap_dense) (simp_all add: image_of_bytes_Nil)
  then show ?thesis by (simp add: image_of_bytes_Nil)
qed

text \<open>
  Claim C1 at two failing inputs. First: the group is opened with the image of 7500
  bytes \<open>0xFF\<close>, and CSN 1 is inserted with the all-zero image, which is encoded
  densely; \<^verbatim>\<open>get_bitmap(1, out)\<close> returns true with 7500 bytes \<open>0xFF\<close>. Second: the
  group is opened with the all-zero image, placeholders for CSN 1 (image: bit 10
  only) and CSN 2 (image: bit 20 only) are pushed, and the one of CSN 2 is filled
  before the one of CSN 1. The second fill merges the positions of CSN 1 into the
  payload of CSN 2, the node in front of it, and \<^verbatim>\<open>get_bitmap(2, out)\<close> returns true
  with bits 10 and 20 set. Neither is the image that was inserted.
\<close>

theorem get_bitmap_returns_other_image:
  "get_after
     [InsertNull 0 (replicate BITMAP_SIZE 255), InsertNull 1 (image_of_bytes []),
      InsertBitmapContent 1 (image_of_bytes [])]
     1 (image_of_bytes [])
   = Inr (True, replicate BITMAP_SIZE 255) \<and>
   replicate BITMAP_SIZE 255 \<noteq> image_of_bytes [] \<and>
   get_after
     [InsertNull 0 (image_of_bytes []), InsertNull 1 (image_of_bytes [0, 32]),
      InsertNull 2 (image_of_bytes [0, 0, 8]), InsertBitmapContent 2 (image_of_bytes [0, 0, 8]),
      InsertBitmapContent 1 (image_of_bytes [0, 32])]
     2 (image_of_bytes [])
   = Inr (True, image_of_bytes [0, 32, 8]) \<and>
   image_of_bytes [0, 32, 8] \<noteq> image_of_bytes [0, 0, 8]"
proof -
  have dense: "get_after
     [InsertNull 0 (replicate BITMAP_SIZE 255), InsertNull 1 (image_of_bytes []),
      InsertBitmapContent 1 (image_of_bytes [])]
     1 (image_of_bytes [])
   = Inr (True, replicate BITMAP_SIZE 255)"
    by (simp add: scenario_simps compress_zero_against_ones decompress_zero_against_ones)
  have ne1: "replicate BITMAP_SIZE 255 \<noteq> (image_of_bytes [] :: uint8_t list)"
    by (simp add: image_of_bytes_Nil BITMAP_SIZE_def replicate_eq_replicate)
  have ne2: "image_of_bytes [0, 32, 8] \<noteq> image_of_bytes [0, 0, 8]"
    by (simp add: image_of_bytes_def)
  have sparse: "get_after
     [InsertNull 0 (image_of_bytes []), InsertNull 1 (image_of_bytes [0, 32]),
      InsertNull 2 (image_of_bytes [0, 0, 8]), InsertBitmapContent 2 (image_of_bytes [0, 0, 8]),
      InsertBitmapContent 1 (image_of_bytes [0, 32])]
     2 (image_of_bytes [])
   = Inr (True, image_of_bytes [0, 32, 8])"
    by (simp add: scenario_simps decompress_bits_10_20)
  show ?thesis by (intro conjI dense ne1 sparse ne2)
qed

end
